theory Spec2Isabelle
  imports Complex_Main "HOL-Library.AList" "HOL-Library.Char_ord" "HOL-Library.List_Lexorder"
    "HOL-Library.Log_Nat"
begin

section \<open>JavaScript numbers and their decimal rendering\<close>

text \<open>
  The front end computes with JavaScript numbers, which are IEEE-754 double-precision
  values. A finite double is a rational number, and \<open>number\<close> is the type of rationals.
  The save path rounds to hundredths before it sends anything, and there the operations
  are taken exactly; the percentage editor keeps unrounded results in the form state, and
  there every operation rounds to the nearest double (section on double-precision
  arithmetic below). Where the source can meet \<open>undefined\<close> or the \<open>NaN\<close> that
  \<open>parseFloat\<close> returns on an unparsable string, the value is an \<open>option\<close> and the
  source's \<open>|| 0\<close> fallback is written out.
\<close>

type_synonym number = rat

definition Math_round :: "number \<Rightarrow> number" where
  \<comment> \<open>\<open>Math.round\<close>: the nearest integer, halves towards plus infinity.\<close>
  "Math_round x = of_int \<lfloor>x + 1 / 2\<rfloor>"

definition reduce_sum :: "number list \<Rightarrow> number" where
  \<comment> \<open>\<open>xs.reduce((s, x) => s + x, 0)\<close>\<close>
  "reduce_sum xs = foldl (\<lambda>s x. s + x) 0 xs"

definition or_zero :: "number option \<Rightarrow> number" where
  \<comment> \<open>\<open>parseFloat(s) || 0\<close>: \<open>None\<close> is \<open>NaN\<close>; \<open>NaN\<close> and \<open>0\<close> are falsy.\<close>
  "or_zero v = (case v of None \<Rightarrow> 0 | Some x \<Rightarrow> (if x = 0 then 0 else x))"

text \<open>
  \<open>x.toFixed(2)\<close> produces a decimal string with two fraction digits: a sign when
  \<open>x < 0\<close>, then the integer \<open>n\<close> nearest to \<open>|x| * 100\<close> (the larger one on a tie)
  written with a point before its last two digits. The result is kept in structured form
  (\<open>fixed2\<close>: sign and hundredths) together with its rendering as a string. (For magnitudes
  of \<open>10^21\<close> and more JavaScript switches to exponent notation; percentages are far
  below that.)
\<close>

record fixed2 =
  negative :: bool
  hundredths :: nat

definition toFixed2 :: "number \<Rightarrow> fixed2" where
  "toFixed2 x = \<lparr>negative = (x < 0), hundredths = nat \<lfloor>\<bar>x\<bar> * 100 + 1 / 2\<rfloor>\<rparr>"

definition fixed2_value :: "fixed2 \<Rightarrow> rat" where
  \<comment> \<open>the number that the decimal string denotes\<close>
  "fixed2_value d = (if negative d then - 1 else 1) * of_nat (hundredths d) / 100"

definition digit_char :: "nat \<Rightarrow> char" where
  \<comment> \<open>the character of a digit \<open>d < 10\<close>\<close>
  "digit_char d = ''0123456789'' ! d"

fun dec_digits :: "nat \<Rightarrow> string" where
  "dec_digits n = (if n < 10 then [digit_char n] else dec_digits (n div 10) @ [digit_char (n mod 10)])"

declare dec_digits.simps [simp del]

definition fixed2_string :: "fixed2 \<Rightarrow> string" where
  "fixed2_string d =
     (if negative d then ''-'' else '''') @ dec_digits (hundredths d div 100) @ ''.'' @
     [digit_char (hundredths d div 10 mod 10), digit_char (hundredths d mod 10)]"

section \<open>Target management: saving the weekly distribution\<close>

text \<open>
  \<open>handleSaveTargets\<close> rounds every weekly percentage to two decimals, and when the
  rounded total is further than 0.001 from 100 it adds the difference to the last entry.
  Each entry is then sent as \<open>{ week_index: idx + 1, percentage: p.toFixed(2) }\<close>.
\<close>

definition roundedPercentages :: "number list \<Rightarrow> number list" where
  "roundedPercentages weeklyPercentages =
     (let rounded = map (\<lambda>p. Math_round (p * 100) / 100) weeklyPercentages;
          total = reduce_sum rounded
      in if length rounded > 0 \<and> \<bar>total - 100\<bar> > 1 / 1000
         then (let diff = 100 - total
               in rounded[length rounded - 1 := rounded ! (length rounded - 1) + diff])
         else rounded)"

definition weekly_distribution_payload :: "number list \<Rightarrow> (nat \<times> fixed2) list" where
  "weekly_distribution_payload weeklyPercentages =
     map (\<lambda>(idx, p). (idx + 1, toFixed2 p)) (enumerate 0 (roundedPercentages weeklyPercentages))"

definition is_cents :: "rat \<Rightarrow> bool" where
  \<comment> \<open>a whole number of hundredths\<close>
  "is_cents x = (of_int \<lfloor>x * 100\<rfloor> = x * 100)"

section \<open>Double-precision arithmetic\<close>

text \<open>
  An arithmetic operation on doubles returns the double nearest to the exact result, a tie
  going to the neighbour with an even significand. The doubles around \<open>x\<close> with
  \<open>2^e \<le> |x| < 2^(e+1)\<close> are the multiples of \<open>2^(e-52)\<close> (53 significant bits); below
  \<open>2^-1022\<close> they are the multiples of \<open>2^-1074\<close>. A result that rounds to \<open>2^1024\<close>
  or more in magnitude is \<open>Infinity\<close> in JavaScript, and dividing by zero gives
  \<open>Infinity\<close> or \<open>NaN\<close>; both are reported as \<open>NonFinite\<close>.
\<close>

text \<open>Landmarks of the format, used to state how far a rounded result is from the exact one.\<close>

definition min_normal :: rat where
  \<comment> \<open>the smallest double with full precision\<close>
  "min_normal = 2 powi (- 1022)"

definition grid_step :: rat where
  \<comment> \<open>the smallest positive double; every double is a multiple of it\<close>
  "grid_step = 2 powi (- 1074)"

definition half_step :: rat where
  "half_step = 2 powi (- 1075)"

definition on_grid :: "rat \<Rightarrow> bool" where
  \<comment> \<open>a multiple of \<open>grid_step\<close>\<close>
  "on_grid x = (of_int \<lfloor>x / grid_step\<rfloor> = x / grid_step)"

definition round_half_even :: "rat \<Rightarrow> int" where
  "round_half_even k =
     (let f = \<lfloor>k\<rfloor>; r = k - of_int f
      in if r < 1 / 2 then f else if r > 1 / 2 then f + 1 else if even f then f else f + 1)"

definition ilog2 :: "rat \<Rightarrow> int" where
  \<comment> \<open>for \<open>x > 0\<close>: the \<open>e\<close> with \<open>2^e \<le> x < 2^(e+1)\<close>\<close>
  "ilog2 x =
     (let (p, q) = quotient_of x; e = bitlen p - bitlen q
      in if 2 powi e \<le> x then e else e - 1)"

definition round_double :: "rat \<Rightarrow> rat" where
  "round_double x =
     (if x = 0 then 0
      else
        let e = max (ilog2 \<bar>x\<bar>) (- 1022);
            ulp = 2 powi (e - 52)
        in of_int (round_half_even (x / ulp)) * ulp)"

datatype js_error = SparseArray | NonFinite

definition overflow_threshold :: rat where
  "overflow_threshold = 2 ^ 1024"

definition to_double :: "rat \<Rightarrow> js_error + number" where
  "to_double x =
     (let y = round_double x in if \<bar>y\<bar> < overflow_threshold then Inr y else Inl NonFinite)"

definition is_double :: "rat \<Rightarrow> bool" where
  "is_double x = (round_double x = x \<and> \<bar>x\<bar> < overflow_threshold)"

definition js_add :: "number \<Rightarrow> number \<Rightarrow> js_error + number" where
  "js_add a b = to_double (a + b)"

definition js_sub :: "number \<Rightarrow> number \<Rightarrow> js_error + number" where
  "js_sub a b = to_double (a - b)"

definition js_mul :: "number \<Rightarrow> number \<Rightarrow> js_error + number" where
  "js_mul a b = to_double (a * b)"

definition js_div :: "number \<Rightarrow> number \<Rightarrow> js_error + number" where
  "js_div a b = (if b = 0 then Inl NonFinite else to_double (a / b))"

definition and_then :: "'e + 'a \<Rightarrow> ('a \<Rightarrow> 'e + 'b) \<Rightarrow> 'e + 'b" where
  \<comment> \<open>the next step runs on the value of the previous one, unless that failed\<close>
  "and_then m f = (case m of Inl e \<Rightarrow> Inl e | Inr x \<Rightarrow> f x)"

fun js_reduce_sum :: "number \<Rightarrow> number list \<Rightarrow> js_error + number" where
  \<comment> \<open>\<open>xs.reduce((sum, p) => sum + p, s)\<close> in doubles\<close>
  "js_reduce_sum s [] = Inr s"
| "js_reduce_sum s (p # ps) = and_then (js_add s p) (\<lambda>s'. js_reduce_sum s' ps)"

fun js_map :: "('a \<Rightarrow> 'e + 'b) \<Rightarrow> 'a list \<Rightarrow> 'e + 'b list" where
  \<comment> \<open>an element-wise update that stops at the first failure\<close>
  "js_map f [] = Inr []"
| "js_map f (x # xs) = and_then (f x) (\<lambda>y. and_then (js_map f xs) (\<lambda>ys. Inr (y # ys)))"

definition unit_roundoff :: rat where
  \<comment> \<open>the largest relative error of a rounding in the normal range\<close>
  "unit_roundoff = 1 / 2 ^ 53"

section \<open>Percentages guarded against a zero target\<close>

text \<open>
  A division whose divisor is zero has no finite value (JavaScript yields \<open>Infinity\<close> or
  \<open>NaN\<close>); the model reports it as an error value. Every achievement percentage of the
  front end is the expression \<open>target > 0 ? (achieved / target) * 100 : 0\<close>.
\<close>

datatype arith_error = DivisionByZero

definition checked_div :: "number \<Rightarrow> number \<Rightarrow> arith_error + number" where
  "checked_div a b = (if b = 0 then Inl DivisionByZero else Inr (a / b))"

definition percent_of :: "number \<Rightarrow> number \<Rightarrow> arith_error + number" where
  "percent_of achieved target =
     (if target > 0
      then (case checked_div achieved target of Inl e \<Rightarrow> Inl e | Inr q \<Rightarrow> Inr (q * 100))
      else Inr 0)"

subsection \<open>PeriodFulfillment\<close>

record category_performance =
  category_id :: string
  category_name :: string
  target_value :: "number option"    \<comment> \<open>\<open>parseFloat(p.target_value)\<close>, \<open>None\<close> for \<open>NaN\<close>\<close>
  achieved_value :: "number option"  \<comment> \<open>\<open>parseFloat(p.achieved_value)\<close>\<close>

definition totalTarget :: "category_performance list \<Rightarrow> number" where
  "totalTarget performance = foldl (\<lambda>sum p. sum + or_zero (target_value p)) 0 performance"

definition totalAchieved :: "category_performance list \<Rightarrow> number" where
  "totalAchieved performance = foldl (\<lambda>sum p. sum + or_zero (achieved_value p)) 0 performance"

definition overallPercentage :: "category_performance list \<Rightarrow> arith_error + number" where
  "overallPercentage performance = percent_of (totalAchieved performance) (totalTarget performance)"

definition category_pct :: "category_performance \<Rightarrow> arith_error + number" where
  "category_pct cat =
     (let target = or_zero (target_value cat); achieved = or_zero (achieved_value cat)
      in percent_of achieved target)"

section \<open>Leaderboard\<close>

datatype trend = Up | Down | Flat

text \<open>A row of a stored snapshot, as the API returns it.\<close>

record leaderboard_row =
  row_user_id :: string
  row_user_name :: "string option"
  row_rank :: int
  row_score :: "number option"            \<comment> \<open>\<open>parseFloat(row.score)\<close>\<close>
  row_achievement_pct :: "number option"  \<comment> \<open>\<open>parseFloat(row.achievement_pct)\<close>\<close>
  row_trend :: trend
  row_streak_days :: int

text \<open>An entry of the weekly progress of one period.\<close>

record user_weekly_progress =
  p_user_id :: string
  p_user_name :: string
  p_total_target :: "number option"    \<comment> \<open>\<open>parseFloat(user.total_target)\<close>\<close>
  p_total_achieved :: "number option"  \<comment> \<open>\<open>parseFloat(user.total_achieved)\<close>\<close>

record weekly_progress_response =
  progress :: "user_weekly_progress list list option"
    \<comment> \<open>\<open>Object.values(data.progress)\<close>: the weeks in key order; \<open>None\<close> when absent\<close>

text \<open>The accumulator kept per user in \<open>userMap\<close>, a \<open>Map\<close> in insertion order.\<close>

record user_totals =
  t_user_id :: string
  t_user_name :: string
  total_target :: number
  total_achieved :: number

text \<open>A displayed leaderboard entry.\<close>

record board_entry =
  user_id :: string
  user_name :: string
  score :: number
  achievement_pct :: number
  trend :: trend
  streak_days :: int
  rank :: int

fun add_user :: "user_totals list \<Rightarrow> user_weekly_progress \<Rightarrow> user_totals list" where
  "add_user [] user =
     [\<lparr>t_user_id = p_user_id user, t_user_name = p_user_name user,
       total_target = 0 + or_zero (p_total_target user),
       total_achieved = 0 + or_zero (p_total_achieved user)\<rparr>]"
| "add_user (userData # rest) user =
     (if t_user_id userData = p_user_id user
      then userData\<lparr>total_target := total_target userData + or_zero (p_total_target user),
                    total_achieved := total_achieved userData + or_zero (p_total_achieved user)\<rparr> # rest
      else userData # add_user rest user)"

definition add_period :: "user_totals list \<Rightarrow> weekly_progress_response \<Rightarrow> user_totals list" where
  "add_period userMap data =
     (case progress data of
        None \<Rightarrow> userMap
      | Some weeks \<Rightarrow> foldl (\<lambda>m weekUsers. foldl add_user m weekUsers) userMap weeks)"

definition aggregate :: "weekly_progress_response list \<Rightarrow> user_totals list" where
  "aggregate allProgressData = foldl add_period [] allProgressData"

text \<open>
  Every user of the map becomes an entry; its percentage is the guarded expression above,
  so a division by zero there would surface as the error of the whole computation.
\<close>

definition to_entry :: "user_totals \<Rightarrow> arith_error + board_entry" where
  "to_entry user =
     (case percent_of (total_achieved user) (total_target user) of
        Inl e \<Rightarrow> Inl e
      | Inr pct \<Rightarrow>
          Inr \<lparr>user_id = t_user_id user, user_name = t_user_name user,
               score = total_achieved user,
               achievement_pct = pct,
               trend = Flat, streak_days = 0, rank = 0\<rparr>)"

fun map_result :: "('a \<Rightarrow> 'e + 'b) \<Rightarrow> 'a list \<Rightarrow> 'e + 'b list" where
  \<comment> \<open>\<open>xs.map(f)\<close> for an \<open>f\<close> that can fail: the first failure is the result\<close>
  "map_result f [] = Inr []"
| "map_result f (x # xs) =
     (case f x of
        Inl e \<Rightarrow> Inl e
      | Inr y \<Rightarrow> (case map_result f xs of Inl e \<Rightarrow> Inl e | Inr ys \<Rightarrow> Inr (y # ys)))"

definition assign_ranks :: "board_entry list \<Rightarrow> board_entry list" where
  \<comment> \<open>\<open>users.forEach((user, idx) => { user.rank = idx + 1 })\<close>\<close>
  "assign_ranks users = map (\<lambda>(idx, user). user\<lparr>rank := int idx + 1\<rparr>) (enumerate 0 users)"

definition string_or :: "string option \<Rightarrow> string option \<Rightarrow> string option" where
  \<comment> \<open>\<open>a || b\<close> on optional strings: \<open>undefined\<close> and the empty string are falsy\<close>
  "string_or a b = (case a of None \<Rightarrow> b | Some s \<Rightarrow> (if s = [] then b else Some s))"

definition from_row :: "(string \<rightharpoonup> string) \<Rightarrow> leaderboard_row \<Rightarrow> board_entry" where
  "from_row userNameMap row =
     \<lparr>user_id = row_user_id row,
      user_name = (case string_or (string_or (row_user_name row) (userNameMap (row_user_id row)))
                                  (Some ''Unknown'') of
                     Some s \<Rightarrow> s | None \<Rightarrow> ''Unknown''),
      score = or_zero (row_score row),
      achievement_pct = or_zero (row_achievement_pct row),
      trend = row_trend row, streak_days = row_streak_days row, rank = row_rank row\<rparr>"

text \<open>
  \<open>Array.prototype.sort\<close> is stable; with a comparator \<open>(a, b) => key b - key a\<close> it
  orders by descending key and keeps the order of equal keys. The library's stable
  insertion sort on the negated key does the same.
\<close>

definition leaderboardData ::
  "bool \<Rightarrow> leaderboard_row list option \<Rightarrow> (string \<rightharpoonup> string) \<Rightarrow>
   weekly_progress_response list \<Rightarrow> arith_error + board_entry list" where
  "leaderboardData isSingleMonth leaderboardRows userNameMap allProgressData =
     (case (isSingleMonth, leaderboardRows) of
        (True, Some rows) \<Rightarrow> Inr (map (from_row userNameMap) (sort_key row_rank rows))
      | _ \<Rightarrow>
        if \<not> isSingleMonth \<and> length allProgressData > 0
        then (case map_result to_entry (aggregate allProgressData) of
                Inl e \<Rightarrow> Inl e
              | Inr users \<Rightarrow> Inr (assign_ranks (sort_key (\<lambda>u. - achievement_pct u) users)))
        else Inr [])"

text \<open>The order that the specification asks of a leaderboard.\<close>

definition spec_precedes :: "board_entry \<Rightarrow> board_entry \<Rightarrow> bool" where
  "spec_precedes a b =
     (achievement_pct a > achievement_pct b \<or>
      (achievement_pct a = achievement_pct b \<and>
       (score a > score b \<or> (score a = score b \<and> user_id a \<le> user_id b))))"

subsection \<open>The current snapshot\<close>

record leaderboard_snapshot =
  snapshot_id :: string
  period_id :: string
  computed_at :: string
  rules_version :: string

text \<open>
  \<open>getTime\<close> stands for \<open>s => new Date(s).getTime()\<close>, the milliseconds that a timestamp
  string denotes.
\<close>

definition latestSnapshot ::
  "(string \<Rightarrow> int) \<Rightarrow> leaderboard_snapshot list option \<Rightarrow> leaderboard_snapshot option" where
  "latestSnapshot getTime snapshots =
     (case snapshots of
        None \<Rightarrow> None
      | Some xs \<Rightarrow>
          if length xs = 0 then None
          else (case sort_key (\<lambda>s. - getTime (computed_at s)) xs of
                  [] \<Rightarrow> None
                | s # _ \<Rightarrow> Some s))"

definition displayed_snapshot_id ::
  "(string \<Rightarrow> int) \<Rightarrow> leaderboard_snapshot list option \<Rightarrow> string option" where
  \<comment> \<open>\<open>useLeaderboardRows(latestSnapshot?.id ?? null)\<close>\<close>
  "displayed_snapshot_id getTime snapshots = map_option snapshot_id (latestSnapshot getTime snapshots)"

section \<open>Target management: editing the weekly percentages\<close>

text \<open>
  \<open>handleWeeklyPercentageChange(index, value)\<close> clamps the value into \<open>[0, 100]\<close>, stores
  it at \<open>index\<close> and, when there are entries below and their new total would not be
  negative, rescales the entries below (proportionally, or equally when they add up to
  nothing positive) so that they absorb the difference. The subtraction, the additions,
  the division and the multiplication are operations on doubles. An index equal to the
  length makes JavaScript append the value (the old value is \<open>undefined\<close>, the
  difference is not a number and nothing lies below); a larger index would grow the array
  with holes, and the model reports \<open>SparseArray\<close> there.
\<close>

definition handleWeeklyPercentageChange ::
  "nat \<Rightarrow> number \<Rightarrow> number list \<Rightarrow> js_error + number list" where
  "handleWeeklyPercentageChange index v weeklyPercentages =
     (if index > length weeklyPercentages then Inl SparseArray
      else if index = length weeklyPercentages
      then Inr (weeklyPercentages @ [max 0 (min 100 v)])
      else
        let newValue = max 0 (min 100 v);
            oldValue = weeklyPercentages ! index;
            newPercentages = weeklyPercentages[index := newValue];
            itemsBelow = drop (index + 1) newPercentages
        in and_then (js_sub oldValue newValue) (\<lambda>diff.
           and_then (js_reduce_sum 0 itemsBelow) (\<lambda>totalBelow.
             if length itemsBelow > 0
             then and_then (js_add totalBelow diff) (\<lambda>newTotalBelow.
                    if newTotalBelow \<ge> 0
                    then and_then
                           (js_map (\<lambda>p. if totalBelow > 0
                                         then and_then (js_div p totalBelow)
                                                (\<lambda>q. js_mul q newTotalBelow)
                                         else js_div newTotalBelow (of_nat (length itemsBelow)))
                                   itemsBelow)
                           (\<lambda>below. Inr (take (index + 1) newPercentages @ below))
                    else Inr newPercentages)
             else Inr newPercentages)))"

text \<open>
  The second half of the handler's guard, \<open>totalBelow + diff >= 0\<close>, as the handler
  evaluates it: the difference, the total of the entries below and their sum are each
  rounded to a double. A value that is not finite counts as the guard failing.
\<close>

definition redistribution_condition :: "nat \<Rightarrow> number \<Rightarrow> number list \<Rightarrow> bool" where
  "redistribution_condition index v weeklyPercentages =
     (let newValue = max 0 (min 100 v);
          oldValue = weeklyPercentages ! index;
          newPercentages = weeklyPercentages[index := newValue];
          itemsBelow = drop (index + 1) newPercentages
      in case and_then (js_sub oldValue newValue) (\<lambda>diff.
              and_then (js_reduce_sum 0 itemsBelow) (\<lambda>totalBelow.
                js_add totalBelow diff)) of
           Inr newTotalBelow \<Rightarrow> newTotalBelow \<ge> 0
         | Inl e \<Rightarrow> False)"

section \<open>Target management: role weights\<close>

datatype role = Owner | Manager | Sales_junior | Sales_senior

record shop_member =
  member_user_id :: string
  member_role :: role

text \<open>
  The form state \<open>roleWeights\<close> maps a week index to an object with a weight per role.
  Objects built by spreading an absent entry lack some keys, so both levels are partial.
\<close>

type_synonym week_weights = "role \<rightharpoonup> number"
type_synonym role_weights = "nat \<rightharpoonup> week_weights"

definition weights_object :: "number \<Rightarrow> number \<Rightarrow> number \<Rightarrow> number \<Rightarrow> week_weights" where
  \<comment> \<open>\<open>{ owner: a, manager: b, sales_junior: c, sales_senior: d }\<close>\<close>
  "weights_object a b c d = [Owner \<mapsto> a, Manager \<mapsto> b, Sales_junior \<mapsto> c, Sales_senior \<mapsto> d]"

definition jCount :: "shop_member list \<Rightarrow> nat" where
  "jCount members = length (filter (\<lambda>m. member_role m = Sales_junior) members)"

definition sCount :: "shop_member list \<Rightarrow> nat" where
  "sCount members = length (filter (\<lambda>m. member_role m = Sales_senior) members)"

definition defaultWeights :: "shop_member list \<Rightarrow> week_weights" where
  "defaultWeights members =
     (if jCount members > 0 \<and> sCount members = 0 then weights_object 0 0 100 0
      else if sCount members > 0 \<and> jCount members = 0 then weights_object 0 0 0 100
      else weights_object 0 0 40 60)"

text \<open>
  \<open>loadPeriodData\<close> fills the state week by week: the defaults, overwritten by what
  \<open>getRoleWeights\<close> returned (each \<open>parseFloat(w.weight_percentage) || 0\<close>), or the
  defaults alone when the request failed (\<open>None\<close>).
\<close>

definition load_week_weights ::
  "shop_member list \<Rightarrow> (role \<times> number option) list option \<Rightarrow> week_weights" where
  "load_week_weights members fetched =
     (case fetched of
        None \<Rightarrow> defaultWeights members
      | Some weekWeights \<Rightarrow>
          foldl (\<lambda>w (r, v). w(r \<mapsto> or_zero v)) (defaultWeights members) weekWeights)"

definition load_role_weights ::
  "shop_member list \<Rightarrow> (nat \<Rightarrow> (role \<times> number option) list option) \<Rightarrow> nat \<Rightarrow> role_weights" where
  "load_role_weights members getRoleWeights numWeeks =
     foldl (\<lambda>weights i. weights(i + 1 \<mapsto> load_week_weights members (getRoleWeights (i + 1))))
           Map.empty [0..<numWeeks]"

definition handleRoleWeightChange :: "nat \<Rightarrow> role \<Rightarrow> number \<Rightarrow> role_weights \<Rightarrow> role_weights" where
  "handleRoleWeightChange weekIndex r v prev =
     (let newValue = max 0 (min 100 v);
          otherRole = (if r = Sales_junior then Sales_senior else Sales_junior);
          otherValue = max 0 (100 - newValue)
      in prev(weekIndex \<mapsto>
           (case prev weekIndex of None \<Rightarrow> Map.empty | Some w \<Rightarrow> w)
             (r \<mapsto> newValue, otherRole \<mapsto> otherValue)))"

text \<open>
  The states that \<open>roleWeights\<close> can take: empty at the start and after a reset, loaded
  from the back end, or changed through the sliders and number fields.
\<close>

inductive reachable_weights :: "role_weights \<Rightarrow> bool" where
  initial: "reachable_weights Map.empty"
| loaded: "reachable_weights (load_role_weights members getRoleWeights numWeeks)"
| changed: "reachable_weights prev \<Longrightarrow> reachable_weights (handleRoleWeightChange weekIndex r v prev)"

text \<open>
  On save, every week sends a pair \<open>sales_junior\<close>, \<open>sales_senior\<close>. With staff of one
  sales role only, the pair is 100/0 or 0/100; otherwise the junior weight of the state
  (40 when the week has no entry) rounded to two decimals, and 100 minus it. A weight
  that is \<open>undefined\<close> in the state would print as \<open>NaN\<close>: \<open>None\<close> in the model.
\<close>

record period_week =
  week_index :: nat
  start_date :: string
  end_date :: string

definition week_role_weights ::
  "shop_member list \<Rightarrow> role_weights \<Rightarrow> nat \<Rightarrow> (role \<times> fixed2 option) list" where
  "week_role_weights members roleWeights weekIndex =
     (let onlyJuniors = (jCount members > 0 \<and> sCount members = 0);
          onlySeniors = (sCount members > 0 \<and> jCount members = 0);
          (juniorWeight, seniorWeight) =
            (if onlyJuniors then (Some 100, Some 0)
             else if onlySeniors then (Some 0, Some 100)
             else
               let weekWeights = (case roleWeights weekIndex of
                                    None \<Rightarrow> weights_object 0 0 40 60 | Some w \<Rightarrow> w);
                   juniorWeight = map_option (\<lambda>j. Math_round (j * 100) / 100)
                                             (weekWeights Sales_junior);
                   seniorWeight = map_option (\<lambda>j. Math_round ((100 - j) * 100) / 100)
                                             juniorWeight
               in (juniorWeight, seniorWeight))
      in [(Sales_junior, map_option toFixed2 juniorWeight),
          (Sales_senior, map_option toFixed2 seniorWeight)])"

definition role_weight_payloads ::
  "shop_member list \<Rightarrow> period_week list \<Rightarrow> role_weights \<Rightarrow>
   (nat \<times> (role \<times> fixed2 option) list) list" where
  "role_weight_payloads members weeks roleWeights =
     map (\<lambda>(idx, _). (idx + 1, week_role_weights members roleWeights (idx + 1)))
         (enumerate 0 weeks)"

definition pair_total :: "(role \<times> fixed2 option) list \<Rightarrow> rat option" where
  \<comment> \<open>the sum of the weights of a submitted list, when all of them are numbers\<close>
  "pair_total items =
     foldr (\<lambda>(r, w) acc. case (w, acc) of (Some d, Some t) \<Rightarrow> Some (fixed2_value d + t) | _ \<Rightarrow> None)
           items (Some 0)"

definition state_pair_total :: "role_weights \<Rightarrow> nat \<Rightarrow> rat option" where
  \<comment> \<open>\<open>weights.sales_junior + weights.sales_senior\<close> of a week of the state\<close>
  "state_pair_total roleWeights weekIndex =
     (case roleWeights weekIndex of
        None \<Rightarrow> None
      | Some w \<Rightarrow> (case (w Sales_junior, w Sales_senior) of
                     (Some j, Some s) \<Rightarrow> Some (j + s) | _ \<Rightarrow> None))"

section \<open>Target management: monthly targets\<close>

text \<open>
  A monthly target is sent as \<open>String(value ?? 0)\<close>. For an integer below \<open>10^21\<close> that is
  its decimal digits, with no point and no fraction digits. The digits that JavaScript
  prints for other numbers depend on their binary floating-point value, which the model
  does not carry: \<open>None\<close>.
\<close>

definition Number_toString :: "number \<Rightarrow> string option" where
  "Number_toString x =
     (if of_int \<lfloor>x\<rfloor> = x
      then Some ((if x < 0 then ''-'' else '''') @ dec_digits (nat \<bar>\<lfloor>x\<rfloor>\<bar>))
      else None)"

definition monthly_targets_payload :: "(string \<times> number) list \<Rightarrow> (string \<times> string option) list" where
  \<comment> \<open>\<open>Object.entries(shopTargets).map(([category_id, value]) => ...)\<close>\<close>
  "monthly_targets_payload shopTargets =
     map (\<lambda>(category_id, v). (category_id, Number_toString v)) shopTargets"

definition handleTargetChange :: "string \<Rightarrow> number option \<Rightarrow> (string \<times> number) list \<Rightarrow> (string \<times> number) list" where
  \<comment> \<open>\<open>{ ...prev, [categoryId]: parseFloat(value) || 0 }\<close>\<close>
  "handleTargetChange categoryId parsed prev = AList.update categoryId (or_zero parsed) prev"

text \<open>A decimal string with exactly two fraction digits: \<open>-?[0-9]+.[0-9][0-9]\<close>.\<close>

definition is_digit :: "char \<Rightarrow> bool" where
  "is_digit c = (c \<in> set ''0123456789'')"

definition is_fixed2_string :: "string \<Rightarrow> bool" where
  "is_fixed2_string s =
     (let body = (case s of [] \<Rightarrow> [] | c # cs \<Rightarrow> if c = CHR ''-'' then cs else s);
          n = length body
      in n \<ge> 4 \<and> body ! (n - 3) = CHR ''.'' \<and>
         list_all is_digit (take (n - 3) body) \<and> list_all is_digit (drop (n - 2) body))"

section \<open>Target management: the order of the requests of a save\<close>

text \<open>
  \<open>handleSaveTargets\<close> returns at once without a selected period. Otherwise it starts one
  role-weight request per week, the monthly-target request and the weekly-distribution
  request, and awaits \<open>Promise.all\<close> of them; then it awaits the recompute request, then
  the refresh. The \<open>catch\<close> block takes over at the first awaited promise that rejects.
  Requests settle in any order, each at most once; \<open>Promise.all\<close> is fulfilled when all its
  promises are, and rejected as soon as one is.
\<close>

datatype request =
    UpsertWeeklyRoleWeights nat
  | UpsertMonthlyTargets
  | UpsertWeeklyDistribution
  | RecomputeUserWeekTargets
  | RefreshPeriods

datatype event = Invoked request | Resolved request | Rejected request

datatype phase = Returned | AwaitSaves | AwaitRecompute | AwaitRefresh | Saved | Failed

record save_run =
  trace :: "event list"
  phase :: phase

definition config_writes :: "nat \<Rightarrow> request list" where
  "config_writes numWeeks =
     map UpsertWeeklyRoleWeights [1..<Suc numWeeks] @ [UpsertMonthlyTargets, UpsertWeeklyDistribution]"

definition start_save :: "bool \<Rightarrow> nat \<Rightarrow> save_run" where
  "start_save periodSelected numWeeks =
     (if \<not> periodSelected then \<lparr>trace = [], phase = Returned\<rparr>
      else \<lparr>trace = map Invoked (config_writes numWeeks), phase = AwaitSaves\<rparr>)"

definition pending :: "save_run \<Rightarrow> request \<Rightarrow> bool" where
  "pending s q =
     (Invoked q \<in> set (trace s) \<and> Resolved q \<notin> set (trace s) \<and> Rejected q \<notin> set (trace s))"

definition all_fulfilled :: "nat \<Rightarrow> save_run \<Rightarrow> bool" where
  "all_fulfilled numWeeks s = list_all (\<lambda>q. Resolved q \<in> set (trace s)) (config_writes numWeeks)"

definition some_rejected :: "nat \<Rightarrow> save_run \<Rightarrow> bool" where
  "some_rejected numWeeks s = list_ex (\<lambda>q. Rejected q \<in> set (trace s)) (config_writes numWeeks)"

inductive save_step :: "nat \<Rightarrow> save_run \<Rightarrow> save_run \<Rightarrow> bool" for numWeeks :: nat where
  resolve: "pending s q \<Longrightarrow> save_step numWeeks s (s\<lparr>trace := trace s @ [Resolved q]\<rparr>)"
| reject: "pending s q \<Longrightarrow> save_step numWeeks s (s\<lparr>trace := trace s @ [Rejected q]\<rparr>)"
| saves_done:
    "phase s = AwaitSaves \<Longrightarrow> all_fulfilled numWeeks s \<Longrightarrow>
     save_step numWeeks s
       \<lparr>trace = trace s @ [Invoked RecomputeUserWeekTargets], phase = AwaitRecompute\<rparr>"
| saves_failed:
    "phase s = AwaitSaves \<Longrightarrow> some_rejected numWeeks s \<Longrightarrow>
     save_step numWeeks s (s\<lparr>phase := Failed\<rparr>)"
| recompute_done:
    "phase s = AwaitRecompute \<Longrightarrow> Resolved RecomputeUserWeekTargets \<in> set (trace s) \<Longrightarrow>
     save_step numWeeks s \<lparr>trace = trace s @ [Invoked RefreshPeriods], phase = AwaitRefresh\<rparr>"
| recompute_failed:
    "phase s = AwaitRecompute \<Longrightarrow> Rejected RecomputeUserWeekTargets \<in> set (trace s) \<Longrightarrow>
     save_step numWeeks s (s\<lparr>phase := Failed\<rparr>)"
| refresh_done:
    "phase s = AwaitRefresh \<Longrightarrow> Resolved RefreshPeriods \<in> set (trace s) \<Longrightarrow>
     save_step numWeeks s (s\<lparr>phase := Saved\<rparr>)"
| refresh_failed:
    "phase s = AwaitRefresh \<Longrightarrow> Rejected RefreshPeriods \<in> set (trace s) \<Longrightarrow>
     save_step numWeeks s (s\<lparr>phase := Failed\<rparr>)"

inductive save_reaches :: "bool \<Rightarrow> nat \<Rightarrow> save_run \<Rightarrow> bool"
  for periodSelected :: bool and numWeeks :: nat where
  start: "save_reaches periodSelected numWeeks (start_save periodSelected numWeeks)"
| step: "save_reaches periodSelected numWeeks s \<Longrightarrow> save_step numWeeks s s' \<Longrightarrow>
         save_reaches periodSelected numWeeks s'"

section \<open>Target management: status changes offered by the overview\<close>

datatype period_status = Draft | Published | Locked | Archived

record period_summary =
  summary_id :: string
  year :: int
  month :: int
  status :: period_status

datatype view = Overview | Create
datatype tab = Current | History

record overview_state =
  isManager :: bool
  current_view :: view
  activeTab :: tab
  selectedPeriod :: "period_summary option"
  historyPeriods :: "period_summary list"

text \<open>
  \<open>handleStatusChange(periodId, newStatus)\<close> passes its arguments to \<open>setPeriodStatus\<close>.
  Its only call sites are the buttons of \<open>renderOverview\<close>; each button is listed with
  the period it belongs to and the status it requests. (The history tab shows its periods
  newest first; the order plays no part in what a button requests and is left as given.)
\<close>

definition current_tab_buttons :: "bool \<Rightarrow> period_summary \<Rightarrow> (period_summary \<times> period_status) list" where
  "current_tab_buttons manager p =
     (if manager \<and> status p = Draft then [(p, Published)] else []) @
     (if manager \<and> status p = Published then [(p, Locked)] else [])"

definition history_buttons :: "bool \<Rightarrow> period_summary \<Rightarrow> (period_summary \<times> period_status) list" where
  "history_buttons manager p =
     (if manager
      then (if status p = Draft then [(p, Published)] else []) @
           (if status p = Published then [(p, Draft), (p, Locked)] else []) @
           (if status p = Locked then [(p, Archived)] else [])
      else [])"

definition status_buttons :: "overview_state \<Rightarrow> (period_summary \<times> period_status) list" where
  "status_buttons ui =
     (if current_view ui = Overview
      then (if activeTab ui = Current
            then (case selectedPeriod ui of
                    None \<Rightarrow> []
                  | Some p \<Rightarrow> current_tab_buttons (isManager ui) p)
            else []) @
           (if activeTab ui = History
            then concat (map (history_buttons (isManager ui)) (historyPeriods ui))
            else [])
      else [])"

definition handleStatusChange :: "string \<Rightarrow> period_status \<Rightarrow> string \<times> period_status" where
  \<comment> \<open>the request sent: \<open>setPeriodStatus(periodId, newStatus)\<close>\<close>
  "handleStatusChange periodId newStatus = (periodId, newStatus)"

definition requested_transitions :: "overview_state \<Rightarrow> (period_status \<times> period_status) list" where
  \<comment> \<open>for every button: the status of its period and the status that a click requests\<close>
  "requested_transitions ui =
     map (\<lambda>(p, newStatus). (status p, snd (handleStatusChange (summary_id p) newStatus))) (status_buttons ui)"

section \<open>Allocation of a role target to members\<close>

text \<open>
  Modelled from the spec: the allocation engine's remainder-distribution step (section 4.2,
  step 3) runs in the back end, whose code is not part of this repository; the
  definitions below follow the words of the specification. \<open>base\<close> is the role target
  divided by the number of members, rounded down to two decimals; \<open>remainder\<close> is what is
  left; the first \<open>remainder * 100\<close> members in ascending order of user identifier
  receive one hundredth more.
\<close>

definition floor2 :: "rat \<Rightarrow> rat" where
  \<comment> \<open>Modelled from the spec: \<open>floor(x, 2 decimals)\<close>.\<close>
  "floor2 x = of_int \<lfloor>x * 100\<rfloor> / 100"

definition remainder_shares :: "rat \<Rightarrow> nat \<Rightarrow> rat list" where
  \<comment> \<open>Modelled from the spec: the shares of \<open>n\<close> members in canonical order.\<close>
  "remainder_shares roleTarget n =
     (if n = 0 then []
      else
        let base = floor2 (roleTarget / of_nat n);
            remainder = roleTarget - base * of_nat n;
            extra = nat \<lfloor>remainder * 100\<rfloor>
        in map (\<lambda>i. if i < extra then base + 1 / 100 else base) [0..<n])"

definition allocate_role :: "rat \<Rightarrow> string list \<Rightarrow> (string \<times> rat) list" where
  \<comment> \<open>Modelled from the spec: members in ascending order of user identifier.\<close>
  "allocate_role roleTarget members =
     (let ordered = sort members
      in zip ordered (remainder_shares roleTarget (length ordered)))"

section \<open>Facts about the number model\<close>

lemma reduce_sum_eq: "reduce_sum xs = sum_list xs"
proof -
  have "foldl (\<lambda>s x. s + x) a xs = a + sum_list xs" for a :: rat
    by (induction xs arbitrary: a) (simp_all add: add.assoc)
  then show ?thesis by (simp add: reduce_sum_def)
qed

lemma is_cents_iff: "is_cents x \<longleftrightarrow> (\<exists>k::int. x = of_int k / 100)"
proof
  assume "is_cents x"
  then have "of_int \<lfloor>x * 100\<rfloor> = x * 100" unfolding is_cents_def .
  then have "x = of_int \<lfloor>x * 100\<rfloor> / 100"
    by (metis nonzero_mult_div_cancel_right zero_neq_numeral)
  then show "\<exists>k::int. x = of_int k / 100" ..
next
  assume "\<exists>k::int. x = of_int k / 100"
  then obtain k :: int where "x = of_int k / 100" ..
  then show "is_cents x" by (simp add: is_cents_def)
qed

lemma is_cents_round: "is_cents (Math_round y / 100)"
  unfolding is_cents_iff Math_round_def by blast

lemma is_cents_add: "is_cents x \<Longrightarrow> is_cents y \<Longrightarrow> is_cents (x + y)"
  unfolding is_cents_iff
proof -
  assume "\<exists>k::int. x = of_int k / 100" "\<exists>k::int. y = of_int k / 100"
  then obtain a b :: int where "x = of_int a / 100" "y = of_int b / 100" by blast
  then have "x + y = of_int (a + b) / 100" by (simp add: add_divide_distrib)
  then show "\<exists>k::int. x + y = of_int k / 100" ..
qed

lemma is_cents_diff: "is_cents x \<Longrightarrow> is_cents y \<Longrightarrow> is_cents (x - y)"
  unfolding is_cents_iff
proof -
  assume "\<exists>k::int. x = of_int k / 100" "\<exists>k::int. y = of_int k / 100"
  then obtain a b :: int where "x = of_int a / 100" "y = of_int b / 100" by blast
  then have "x - y = of_int (a - b) / 100" by (simp add: diff_divide_distrib)
  then show "\<exists>k::int. x - y = of_int k / 100" ..
qed

lemma is_cents_numeral [simp]: "is_cents 100" "is_cents 0"
  by (simp_all add: is_cents_def)

lemma is_cents_sum_list: "\<forall>x \<in> set xs. is_cents x \<Longrightarrow> is_cents (sum_list xs)"
  by (induction xs) (simp_all add: is_cents_add)

lemma floor_add_half: "\<lfloor>(of_int j :: rat) + 1 / 2\<rfloor> = j"
  by linarith

lemma toFixed2_exact: "is_cents x \<Longrightarrow> fixed2_value (toFixed2 x) = x"
proof -
  assume "is_cents x"
  then obtain k :: int where x: "x = of_int k / 100" unfolding is_cents_iff ..
  have "\<bar>x\<bar> * 100 = of_int \<bar>k\<bar>" by (simp add: x)
  then have "\<lfloor>\<bar>x\<bar> * 100 + 1 / 2\<rfloor> = \<bar>k\<bar>" by (simp only: floor_add_half)
  then have h: "hundredths (toFixed2 x) = nat \<bar>k\<bar>" by (simp add: toFixed2_def)
  have n: "negative (toFixed2 x) \<longleftrightarrow> k < 0" by (simp add: toFixed2_def x)
  show ?thesis unfolding fixed2_value_def h n by (simp add: x)
qed

lemma is_cents_near_100: "is_cents t \<Longrightarrow> \<not> \<bar>t - 100\<bar> > 1 / 1000 \<Longrightarrow> t = 100"
proof -
  assume c: "is_cents t" and near: "\<not> \<bar>t - 100\<bar> > 1 / 1000"
  from c obtain k :: int where t: "t = of_int k / 100" unfolding is_cents_iff ..
  from near have "\<bar>of_int k - (10000::rat)\<bar> \<le> 1 / 10" by (simp add: t field_simps)
  then have "\<bar>(of_int (k - 10000))::rat\<bar> < 1" by simp
  then have "\<bar>k - 10000\<bar> < 1" by (metis of_int_abs of_int_less_1_iff)
  then have "k = 10000" by simp
  then show "t = 100" by (simp add: t)
qed

lemma sum_list_update_rat:
  "i < length xs \<Longrightarrow> sum_list (xs[i := v]) = sum_list xs - xs ! i + (v :: rat)"
proof (induction xs arbitrary: i)
  case Nil
  then show ?case by simp
next
  case (Cons x xs)
  then show ?case by (cases i) simp_all
qed

lemma is_cents_update:
  "\<forall>x \<in> set xs. is_cents x \<Longrightarrow> is_cents v \<Longrightarrow> \<forall>x \<in> set (xs[i := v]). is_cents x"
  by (metis insert_iff set_update_subset_insert subsetD)

lemma roundedPercentages_cents: "\<forall>x \<in> set (roundedPercentages ps). is_cents x"
proof -
  let ?r = "map (\<lambda>p. Math_round (p * 100) / 100) ps"
  have r: "\<forall>x \<in> set ?r. is_cents x" by (auto simp: is_cents_round)
  show ?thesis
  proof (cases "length ?r > 0 \<and> \<bar>reduce_sum ?r - 100\<bar> > 1 / 1000")
    case False
    then have "roundedPercentages ps = ?r"
      unfolding roundedPercentages_def Let_def by (simp only: if_False)
    with r show ?thesis by simp
  next
    case True
    then have e: "roundedPercentages ps =
        ?r[length ?r - 1 := ?r ! (length ?r - 1) + (100 - reduce_sum ?r)]"
      unfolding roundedPercentages_def Let_def by (simp only: if_True simp_thms)
    from True have "?r ! (length ?r - 1) \<in> set ?r" by (intro nth_mem) simp
    with r have "is_cents (?r ! (length ?r - 1))" by blast
    moreover have "is_cents (100 - reduce_sum ?r)"
      using r by (simp only: reduce_sum_eq is_cents_diff is_cents_numeral is_cents_sum_list)
    ultimately have "is_cents (?r ! (length ?r - 1) + (100 - reduce_sum ?r))"
      by (rule is_cents_add)
    with r show ?thesis unfolding e by (rule is_cents_update)
  qed
qed

lemma roundedPercentages_total:
  assumes "ps \<noteq> []"
  shows "sum_list (roundedPercentages ps) = 100"
proof -
  let ?r = "map (\<lambda>p. Math_round (p * 100) / 100) ps"
  have r: "\<forall>x \<in> set ?r. is_cents x" by (auto simp: is_cents_round)
  from assms have len: "length ?r > 0" by simp
  show ?thesis
  proof (cases "\<bar>reduce_sum ?r - 100\<bar> > 1 / 1000")
    case False
    with len have "roundedPercentages ps = ?r"
      unfolding roundedPercentages_def Let_def by simp
    moreover have "sum_list ?r = 100"
    proof (rule is_cents_near_100)
      show "is_cents (sum_list ?r)" using r by (rule is_cents_sum_list)
      show "\<not> 1 / 1000 < \<bar>sum_list ?r - 100\<bar>" using False unfolding reduce_sum_eq .
    qed
    ultimately show ?thesis by simp
  next
    case True
    with len have e: "roundedPercentages ps =
        ?r[length ?r - 1 := ?r ! (length ?r - 1) + (100 - reduce_sum ?r)]"
      unfolding roundedPercentages_def Let_def by simp
    from len have "length ?r - 1 < length ?r" by simp
    then show ?thesis
      unfolding e by (simp only: sum_list_update_rat reduce_sum_eq)
  qed
qed

lemma payload_values:
  "map (\<lambda>(week_index, percentage). fixed2_value percentage) (weekly_distribution_payload ps) =
   map (\<lambda>p. fixed2_value (toFixed2 p)) (roundedPercentages ps)"
proof -
  have "map (\<lambda>(week_index, percentage). fixed2_value percentage)
          (map (\<lambda>(idx, p). (idx + 1, toFixed2 p)) (enumerate n xs)) =
        map (\<lambda>p. fixed2_value (toFixed2 p)) xs" for n xs
    by (induction xs arbitrary: n) simp_all
  then show ?thesis by (simp only: weekly_distribution_payload_def)
qed



section \<open>Facts about the leaderboard\<close>

lemma percent_of_eq:
  "percent_of achieved target = Inr (if target > 0 then achieved / target * 100 else 0)"
  by (simp add: percent_of_def checked_div_def)

lemma assign_ranks_map:
  assumes "\<And>u r. f (u\<lparr>rank := r\<rparr>) = f u"
  shows "map f (assign_ranks users) = map f users"
proof -
  have "map f (map (\<lambda>(idx, user). user\<lparr>rank := int idx + 1\<rparr>) (enumerate n users)) = map f users"
    for n
    by (induction users arbitrary: n) (simp_all add: assms)
  then show ?thesis by (simp only: assign_ranks_def)
qed

lemma length_assign_ranks: "length (assign_ranks users) = length users"
  by (simp add: assign_ranks_def)

lemma assign_ranks_ranks: "map rank (assign_ranks users) = map int [1..<Suc (length users)]"
proof -
  have "map rank (map (\<lambda>(idx, user). user\<lparr>rank := int idx + 1\<rparr>) (enumerate n users)) =
        map (\<lambda>i. int i + 1) [n..<n + length users]" for n
  proof (induction users arbitrary: n)
    case Nil
    show ?case by simp
  next
    case (Cons u us)
    have "[n..<n + length (u # us)] = n # [Suc n..<Suc n + length us]"
      by (simp add: upt_rec [of n] del: upt_Suc)
    with Cons.IH [of "Suc n"] show ?case by (simp del: upt_Suc)
  qed
  from this [of 0] have "map rank (assign_ranks users) = map (\<lambda>i. int (Suc i)) [0..<length users]"
    by (simp add: assign_ranks_def add.commute)
  also have "\<dots> = map int (map Suc [0..<length users])" by simp
  also have "map Suc [0..<length users] = [1..<Suc (length users)]"
    by (simp only: map_Suc_upt One_nat_def)
  finally show ?thesis .
qed

lemma sort_desc_sorted:
  "sorted_wrt (\<lambda>a b. f a \<ge> f b) (sort_key (\<lambda>u. - f u) xs)" for f :: "'a \<Rightarrow> rat"
proof -
  have "sorted (map (\<lambda>u. - f u) (sort_key (\<lambda>u. - f u) xs))" by (rule sorted_sort_key)
  then show ?thesis by (simp add: sorted_map)
qed

lemma sorted_wrt_pct_assign_ranks:
  "sorted_wrt (\<lambda>a b. achievement_pct a \<ge> achievement_pct b) users \<Longrightarrow>
   sorted_wrt (\<lambda>a b. achievement_pct a \<ge> achievement_pct b) (assign_ranks users)"
proof -
  assume s: "sorted_wrt (\<lambda>a b. achievement_pct a \<ge> achievement_pct b) users"
  have m: "map achievement_pct (assign_ranks users) = map achievement_pct users"
    by (rule assign_ranks_map) simp
  from s have "sorted_wrt (\<ge>) (map achievement_pct users)" by (simp add: sorted_wrt_map)
  then have "sorted_wrt (\<ge>) (map achievement_pct (assign_ranks users))" by (simp only: m)
  then show ?thesis by (simp add: sorted_wrt_map)
qed

lemma tied_ids_assign_ranks:
  "map user_id (filter (\<lambda>e. achievement_pct e = k) (assign_ranks users)) =
   map user_id (filter (\<lambda>e. achievement_pct e = k) users)"
proof -
  have "map user_id (filter (\<lambda>e. achievement_pct e = k)
          (map (\<lambda>(idx, user). user\<lparr>rank := int idx + 1\<rparr>) (enumerate n users))) =
        map user_id (filter (\<lambda>e. achievement_pct e = k) users)" for n
    by (induction users arbitrary: n) simp_all
  then show ?thesis by (simp only: assign_ranks_def)
qed

lemma tied_ids_sort:
  "filter (\<lambda>e. achievement_pct e = k) (sort_key (\<lambda>u. - achievement_pct u) users) =
   filter (\<lambda>e. achievement_pct e = k) users"
proof -
  have "filter (\<lambda>e. - achievement_pct e = - k) (sort_key (\<lambda>u. - achievement_pct u) users) =
        filter (\<lambda>e. - achievement_pct e = - k) users"
    by (rule sort_key_stable)
  then show ?thesis by simp
qed

lemma map_result_total: "(\<And>x. f x = Inr (g x)) \<Longrightarrow> map_result f xs = Inr (map g xs)"
  by (induction xs) simp_all

lemma to_entry_total:
  "to_entry user =
     Inr \<lparr>user_id = t_user_id user, user_name = t_user_name user,
          score = total_achieved user,
          achievement_pct =
            (if total_target user > 0 then total_achieved user / total_target user * 100 else 0),
          trend = Flat, streak_days = 0, rank = 0\<rparr>"
  by (simp add: to_entry_def percent_of_eq)

lemma entries_total: "\<exists>users. map_result to_entry us = Inr users \<and> length users = length us"
  using map_result_total [of to_entry _ us, OF to_entry_total] by simp

lemma leaderboardData_aggregated:
  "\<not> isSingleMonth \<Longrightarrow> map_result to_entry (aggregate allProgressData) = Inr users \<Longrightarrow>
   leaderboardData isSingleMonth leaderboardRows userNameMap allProgressData =
     Inr (assign_ranks (sort_key (\<lambda>u. - achievement_pct u) users))"
  by (cases allProgressData)
     (auto simp: leaderboardData_def aggregate_def assign_ranks_def)

lemma leaderboardData_total:
  "leaderboardData isSingleMonth leaderboardRows userNameMap allProgressData \<noteq> Inl DivisionByZero"
proof -
  obtain users where "map_result to_entry (aggregate allProgressData) = Inr users"
    using entries_total by blast
  then show ?thesis
    by (simp add: leaderboardData_def split: bool.splits option.splits)
qed

text \<open>
  Claim C2, as the code has it. A leaderboard aggregated from the weekly progress of the
  periods in the range is sorted by descending \<open>achievement_pct\<close>; entries with the same
  \<open>achievement_pct\<close> keep the order in which \<open>userMap\<close> holds their users (there is no
  tie-break on score or user identifier); and the ranks are \<open>1, 2, ..., n\<close>, one per row.
\<close>

theorem aggregated_leaderboard_ranking:
  assumes "\<not> isSingleMonth"
  shows "\<exists>rows users.
           leaderboardData isSingleMonth leaderboardRows userNameMap allProgressData = Inr rows \<and>
           map_result to_entry (aggregate allProgressData) = Inr users \<and>
           sorted_wrt (\<lambda>a b. achievement_pct a \<ge> achievement_pct b) rows \<and>
           map user_id (filter (\<lambda>e. achievement_pct e = k) rows) =
             map user_id (filter (\<lambda>e. achievement_pct e = k) users) \<and>
           map rank rows = map int [1..<Suc (length (aggregate allProgressData))]"
proof -
  obtain users where users: "map_result to_entry (aggregate allProgressData) = Inr users"
    and len: "length users = length (aggregate allProgressData)"
    using entries_total by blast
  let ?sorted = "sort_key (\<lambda>u. - achievement_pct u) users"
  have e: "leaderboardData isSingleMonth leaderboardRows userNameMap allProgressData =
           Inr (assign_ranks ?sorted)"
    using assms users by (rule leaderboardData_aggregated)
  have "sorted_wrt (\<lambda>a b. achievement_pct a \<ge> achievement_pct b) (assign_ranks ?sorted)"
    by (intro sorted_wrt_pct_assign_ranks sort_desc_sorted)
  moreover have "map user_id (filter (\<lambda>e. achievement_pct e = k) (assign_ranks ?sorted)) =
      map user_id (filter (\<lambda>e. achievement_pct e = k) users)"
    by (simp only: tied_ids_assign_ranks tied_ids_sort)
  moreover have "map rank (assign_ranks ?sorted) =
      map int [1..<Suc (length (aggregate allProgressData))]"
    by (simp only: assign_ranks_ranks length_sort len)
  ultimately show ?thesis using e users by blast
qed

theorem aggregated_leaderboard_ranking_witness:
  "\<not> False \<and>
   (\<exists>rows. leaderboardData False None Map.empty
     [\<lparr>progress = Some [[\<lparr>p_user_id = ''u1'', p_user_name = ''Ann'',
                           p_total_target = Some 100, p_total_achieved = Some 50\<rparr>,
                         \<lparr>p_user_id = ''u2'', p_user_name = ''Bob'',
                           p_total_target = Some 200, p_total_achieved = Some 100\<rparr>]]\<rparr>] = Inr rows \<and>
     map rank rows = map int [1..<Suc (length (aggregate
       [\<lparr>progress = Some [[\<lparr>p_user_id = ''u1'', p_user_name = ''Ann'',
                             p_total_target = Some 100, p_total_achieved = Some 50\<rparr>,
                           \<lparr>p_user_id = ''u2'', p_user_name = ''Bob'',
                             p_total_target = Some 200, p_total_achieved = Some 100\<rparr>]]\<rparr>]))])"
  using aggregated_leaderboard_ranking [of False None Map.empty
     "[\<lparr>progress = Some [[\<lparr>p_user_id = ''u1'', p_user_name = ''Ann'',
                           p_total_target = Some 100, p_total_achieved = Some 50\<rparr>,
                         \<lparr>p_user_id = ''u2'', p_user_name = ''Bob'',
                           p_total_target = Some 200, p_total_achieved = Some 100\<rparr>]]\<rparr>]" 0]
  by blast

text \<open>
  The claim as stated fails: two users with the same achievement percentage (50) and
  scores 50 and 100 are listed in the order of the user map, the lower score first.
\<close>

theorem leaderboard_tie_break_counterexample:
  "leaderboardData False None Map.empty
     [\<lparr>progress = Some [[\<lparr>p_user_id = ''u1'', p_user_name = ''Ann'',
                           p_total_target = Some 100, p_total_achieved = Some 50\<rparr>,
                         \<lparr>p_user_id = ''u2'', p_user_name = ''Bob'',
                           p_total_target = Some 200, p_total_achieved = Some 100\<rparr>]]\<rparr>] =
     Inr [\<lparr>user_id = ''u1'', user_name = ''Ann'', score = 50, achievement_pct = 50,
           trend = Flat, streak_days = 0, rank = 1\<rparr>,
          \<lparr>user_id = ''u2'', user_name = ''Bob'', score = 100, achievement_pct = 50,
           trend = Flat, streak_days = 0, rank = 2\<rparr>] \<and>
   \<not> sorted_wrt spec_precedes
     [\<lparr>user_id = ''u1'', user_name = ''Ann'', score = 50, achievement_pct = 50,
       trend = Flat, streak_days = 0, rank = 1\<rparr>,
      \<lparr>user_id = ''u2'', user_name = ''Bob'', score = 100, achievement_pct = 50,
       trend = Flat, streak_days = 0, rank = 2\<rparr>]"
  by code_simp

text \<open>
  Claim C3. Wherever a percentage of achievement is computed (the aggregated leaderboard
  entry of a user, the overall fulfillment of a period, a category row of the breakdown)
  a target that is zero or negative gives exactly 0, the division is evaluated only for a
  positive target, and so neither the leaderboard nor the fulfillment computation ever
  divides by zero.
\<close>

theorem zero_target_gives_zero_percent:
  "to_entry user \<noteq> Inl DivisionByZero \<and>
   (total_target user \<le> 0 \<longrightarrow> map_sum id achievement_pct (to_entry user) = Inr 0) \<and>
   (total_target user > 0 \<longrightarrow>
      map_sum id achievement_pct (to_entry user) =
        Inr (total_achieved user / total_target user * 100)) \<and>
   leaderboardData isSingleMonth leaderboardRows userNameMap allProgressData \<noteq> Inl DivisionByZero \<and>
   overallPercentage performance \<noteq> Inl DivisionByZero \<and>
   (totalTarget performance \<le> 0 \<longrightarrow> overallPercentage performance = Inr 0) \<and>
   category_pct cat \<noteq> Inl DivisionByZero \<and>
   (or_zero (target_value cat) \<le> 0 \<longrightarrow> category_pct cat = Inr 0)"
  by (simp add: percent_of_eq to_entry_total leaderboardData_total overallPercentage_def
      category_pct_def Let_def)

theorem zero_target_gives_zero_percent_witness:
  "total_target \<lparr>t_user_id = ''u1'', t_user_name = ''Ann'', total_target = 0, total_achieved = 50\<rparr> \<le> 0 \<and>
   map_sum id achievement_pct (to_entry
     \<lparr>t_user_id = ''u1'', t_user_name = ''Ann'', total_target = 0, total_achieved = 50\<rparr>) = Inr 0 \<and>
   totalTarget [\<lparr>category_id = ''c1'', category_name = ''Phones'',
                 target_value = None, achieved_value = Some 7\<rparr>] \<le> 0 \<and>
   overallPercentage [\<lparr>category_id = ''c1'', category_name = ''Phones'',
                        target_value = None, achieved_value = Some 7\<rparr>] = Inr 0 \<and>
   or_zero (target_value \<lparr>category_id = ''c1'', category_name = ''Phones'',
                          target_value = Some 0, achieved_value = Some 7\<rparr>) \<le> 0 \<and>
   category_pct \<lparr>category_id = ''c1'', category_name = ''Phones'',
                 target_value = Some 0, achieved_value = Some 7\<rparr> = Inr 0"
  using zero_target_gives_zero_percent
    [where user = "\<lparr>t_user_id = ''u1'', t_user_name = ''Ann'', total_target = 0, total_achieved = 50\<rparr>"
       and performance = "[\<lparr>category_id = ''c1'', category_name = ''Phones'',
           target_value = None, achieved_value = Some 7\<rparr>]"
       and cat = "\<lparr>category_id = ''c1'', category_name = ''Phones'',
          target_value = Some 0, achieved_value = Some 7\<rparr>"]
  by (simp add: totalTarget_def or_zero_def)

text \<open>
  Claim C5. For a non-empty list of snapshots, the snapshot whose rows are displayed is
  one of the list with the greatest \<open>computed_at\<close> time.
\<close>

theorem latest_snapshot_is_newest:
  assumes "snapshots \<noteq> []"
  shows "\<exists>s. latestSnapshot getTime (Some snapshots) = Some s \<and>
             displayed_snapshot_id getTime (Some snapshots) = Some (snapshot_id s) \<and>
             s \<in> set snapshots \<and>
             (\<forall>t \<in> set snapshots. getTime (computed_at t) \<le> getTime (computed_at s))"
proof -
  let ?key = "\<lambda>s. - getTime (computed_at s)"
  from assms have "length (sort_key ?key snapshots) \<noteq> 0" by simp
  then obtain s rest where sr: "sort_key ?key snapshots = s # rest"
    by (cases "sort_key ?key snapshots") simp_all
  with assms have l: "latestSnapshot getTime (Some snapshots) = Some s"
    by (simp add: latestSnapshot_def)
  have "set (s # rest) = set snapshots" unfolding sr [symmetric] by simp
  then have mem: "s \<in> set snapshots" and all: "set snapshots \<subseteq> insert s (set rest)" by auto
  have "sorted (map ?key (s # rest))" unfolding sr [symmetric] by (rule sorted_sort_key)
  then have "\<forall>t \<in> set rest. ?key s \<le> ?key t" by simp
  with all have "\<forall>t \<in> set snapshots. getTime (computed_at t) \<le> getTime (computed_at s)" by auto
  with l mem show ?thesis by (simp add: displayed_snapshot_id_def)
qed

theorem latest_snapshot_is_newest_witness:
  "[\<lparr>snapshot_id = ''s1'', period_id = ''p'', computed_at = ''2025-01-05T10:00:00Z'', rules_version = ''v1''\<rparr>,
    \<lparr>snapshot_id = ''s2'', period_id = ''p'', computed_at = ''2025-01-09T10:00:00Z'', rules_version = ''v1''\<rparr>] \<noteq> [] \<and>
   (\<exists>s. latestSnapshot (\<lambda>c. of_char (c ! 9)) (Some
     [\<lparr>snapshot_id = ''s1'', period_id = ''p'', computed_at = ''2025-01-05T10:00:00Z'', rules_version = ''v1''\<rparr>,
      \<lparr>snapshot_id = ''s2'', period_id = ''p'', computed_at = ''2025-01-09T10:00:00Z'', rules_version = ''v1''\<rparr>]) = Some s)"
  using latest_snapshot_is_newest [of
     "[\<lparr>snapshot_id = ''s1'', period_id = ''p'', computed_at = ''2025-01-05T10:00:00Z'', rules_version = ''v1''\<rparr>,
       \<lparr>snapshot_id = ''s2'', period_id = ''p'', computed_at = ''2025-01-09T10:00:00Z'', rules_version = ''v1''\<rparr>]"
     "\<lambda>c. of_char (c ! 9)"]
  by blast

section \<open>Facts about the target forms\<close>

lemma round_cents: "is_cents x \<Longrightarrow> Math_round (x * 100) / 100 = x"
proof -
  assume "is_cents x"
  then obtain k :: int where x: "x = of_int k / 100" unfolding is_cents_iff ..
  have "x * 100 = of_int k" by (simp add: x)
  then have "Math_round (x * 100) = of_int k"
    unfolding Math_round_def by (simp only: floor_add_half)
  then show ?thesis by (simp add: x)
qed

lemma fold_weights_defined:
  "w role0 \<noteq> None \<Longrightarrow> foldl (\<lambda>w (r, v). w(r \<mapsto> or_zero v)) w xs role0 \<noteq> None"
  by (induction xs arbitrary: w) (simp_all add: split_def)

lemma defaultWeights_junior: "defaultWeights members Sales_junior \<noteq> None"
  by (simp add: defaultWeights_def weights_object_def)

lemma load_week_weights_junior: "load_week_weights members fetched Sales_junior \<noteq> None"
  by (cases fetched) (simp_all add: load_week_weights_def fold_weights_defined defaultWeights_junior)

lemma load_role_weights_junior:
  "load_role_weights members getRoleWeights numWeeks weekIndex = Some w \<Longrightarrow> w Sales_junior \<noteq> None"
proof -
  have "foldl (\<lambda>weights i. weights(i + 1 \<mapsto> load_week_weights members (getRoleWeights (i + 1))))
          m xs weekIndex = Some w \<Longrightarrow>
        (\<And>w'. m weekIndex = Some w' \<Longrightarrow> w' Sales_junior \<noteq> None) \<Longrightarrow> w Sales_junior \<noteq> None"
    for m xs
  proof (induction xs arbitrary: m)
    case Nil
    then show ?case by simp
  next
    case (Cons i xs)
    show ?case
    proof (rule Cons.IH)
      show "foldl (\<lambda>weights i. weights(i + 1 \<mapsto> load_week_weights members (getRoleWeights (i + 1))))
              (m(i + 1 \<mapsto> load_week_weights members (getRoleWeights (i + 1)))) xs weekIndex = Some w"
        using Cons.prems(1) by (simp only: foldl_Cons)
      show "w' Sales_junior \<noteq> None"
        if "(m(i + 1 \<mapsto> load_week_weights members (getRoleWeights (i + 1)))) weekIndex = Some w'" for w'
        using that Cons.prems(2) load_week_weights_junior by (auto split: if_splits)
    qed
  qed
  then show "load_role_weights members getRoleWeights numWeeks weekIndex = Some w \<Longrightarrow>
             w Sales_junior \<noteq> None"
    unfolding load_role_weights_def by fastforce
qed

lemma reachable_junior_defined:
  "reachable_weights roleWeights \<Longrightarrow> roleWeights weekIndex = Some w \<Longrightarrow> w Sales_junior \<noteq> None"
proof (induction arbitrary: weekIndex w rule: reachable_weights.induct)
  case initial
  then show ?case by simp
next
  case (loaded members getRoleWeights numWeeks)
  then show ?case by (rule load_role_weights_junior)
next
  case (changed prev weekIndex' r v)
  show ?case
  proof (cases "weekIndex = weekIndex'")
    case True
    with changed.prems show ?thesis
      by (auto simp: handleRoleWeightChange_def Let_def split: if_splits)
  next
    case False
    with changed.prems have "prev weekIndex = Some w"
      by (simp add: handleRoleWeightChange_def Let_def)
    then show ?thesis by (rule changed.IH)
  qed
qed

lemma pair_total_two:
  "pair_total [(r1, Some (toFixed2 a)), (r2, Some (toFixed2 b))] =
   Some (fixed2_value (toFixed2 a) + fixed2_value (toFixed2 b))"
  by (simp add: pair_total_def)

lemma week_role_weights_total:
  assumes "\<And>w. roleWeights weekIndex = Some w \<Longrightarrow> w Sales_junior \<noteq> None"
  shows "map fst (week_role_weights members roleWeights weekIndex) = [Sales_junior, Sales_senior] \<and>
         pair_total (week_role_weights members roleWeights weekIndex) = Some 100"
proof -
  let ?ww = "case roleWeights weekIndex of None \<Rightarrow> weights_object 0 0 40 60 | Some w \<Rightarrow> w"
  have "?ww Sales_junior \<noteq> None"
    using assms by (cases "roleWeights weekIndex") (simp_all add: weights_object_def)
  then obtain j where j: "?ww Sales_junior = Some j" by blast
  let ?jw = "Math_round (j * 100) / 100"
  have cj: "is_cents ?jw" by (rule is_cents_round)
  then have cs: "is_cents (100 - ?jw)" by (intro is_cents_diff is_cents_numeral)
  have sw: "Math_round ((100 - ?jw) * 100) / 100 = 100 - ?jw" using cs by (rule round_cents)
  have v: "fixed2_value (toFixed2 ?jw) + fixed2_value (toFixed2 (100 - ?jw)) = 100"
    using cj cs by (simp add: toFixed2_exact)
  have c: "fixed2_value (toFixed2 100) = 100" "fixed2_value (toFixed2 0) = 0"
    by (simp_all add: toFixed2_exact)
  show ?thesis
    unfolding week_role_weights_def Let_def j
    using sw v c by (simp add: pair_total_two diff_divide_distrib)
qed




lemma is_digit_digit_char: "k < 10 \<Longrightarrow> is_digit (digit_char k)"
proof -
  assume "k < 10"
  then have "k < length ''0123456789''" by simp
  then show ?thesis unfolding is_digit_def digit_char_def by (rule nth_mem)
qed

lemma dec_digits_digits: "dec_digits n \<noteq> [] \<and> list_all is_digit (dec_digits n)"
proof (induction n rule: dec_digits.induct)
  case (1 n)
  show ?case
  proof (cases "n < 10")
    case True
    then show ?thesis by (subst (1 2) dec_digits.simps) (simp add: is_digit_digit_char)
  next
    case False
    with "1" show ?thesis by (subst (1 2) dec_digits.simps) (simp add: is_digit_digit_char)
  qed
qed

lemma toFixed2_is_fixed2_string: "is_fixed2_string (fixed2_string (toFixed2 x))"
proof -
  let ?d = "toFixed2 x"
  let ?int = "dec_digits (hundredths ?d div 100)"
  let ?frac = "[digit_char (hundredths ?d div 10 mod 10), digit_char (hundredths ?d mod 10)]"
  obtain c cs where int: "?int = c # cs" "is_digit c" "list_all is_digit cs"
    using dec_digits_digits [of "hundredths ?d div 100"] by (cases ?int) auto
  have minus: "\<not> is_digit CHR ''-''" by (simp add: is_digit_def)
  with int have c: "c \<noteq> CHR ''-''" by blast
  have frac: "list_all is_digit ?frac" by (simp add: is_digit_digit_char)
  have body: "(case fixed2_string ?d of [] \<Rightarrow> [] | a # as \<Rightarrow> if a = CHR ''-'' then as else fixed2_string ?d)
              = ?int @ ''.'' @ ?frac"
    using c by (simp add: fixed2_string_def int(1))
  have len: "length (?int @ ''.'' @ ?frac) - 3 = length ?int" by simp
  have len2: "length (?int @ ''.'' @ ?frac) - 2 = Suc (length ?int)" by simp
  show ?thesis
    unfolding is_fixed2_string_def Let_def body len len2
    using int frac by (simp add: nth_append)
qed

text \<open>
  Claim C6 at a failing input. With the monthly target of a category set to 1000 in the
  form, \<open>handleSaveTargets\<close> sends \<open>target_value: "1000"\<close>, which is not a decimal string
  with two fraction digits; the weekly percentages and role weights, printed with
  \<open>toFixed(2)\<close>, always are (lemma \<open>toFixed2_is_fixed2_string\<close>).
\<close>

theorem monthly_target_sent_without_decimals:
  "monthly_targets_payload (handleTargetChange ''revenue'' (Some 1000) [(''revenue'', 0)]) =
     [(''revenue'', Some ''1000'')] \<and>
   \<not> is_fixed2_string ''1000'' \<and> is_fixed2_string ''1000.00''"
  by code_simp

section \<open>Facts about the save run, the status buttons and the allocation\<close>

lemma shares_sum:
  "sum_list (map (\<lambda>i. if i < k then b + c else b) [0..<n]) = of_nat n * b + of_nat (min k n) * (c :: rat)"
proof (induction n)
  case 0
  show ?case by simp
next
  case (Suc n)
  show ?case
  proof (cases "n < k")
    case True
    then have "min k (Suc n) = Suc (min k n)" by simp
    with Suc True show ?thesis by (simp add: algebra_simps)
  next
    case False
    then have "min k (Suc n) = min k n" by simp
    with Suc False show ?thesis by (simp add: algebra_simps)
  qed
qed

lemma remainder_shares_total:
  assumes "is_cents roleTarget" and "n \<ge> 1"
  shows "sum_list (remainder_shares roleTarget n) = roleTarget"
proof -
  from assms(1) obtain k :: int where t: "roleTarget = of_int k / 100" unfolding is_cents_iff ..
  from assms(2) have n: "int n > 0" by simp
  have "roleTarget / of_nat n * 100 = of_int k / of_int (int n)" by (simp add: t)
  then have "\<lfloor>roleTarget / of_nat n * 100\<rfloor> = k div int n"
    by (simp only: floor_divide_of_int_eq)
  then have base: "floor2 (roleTarget / of_nat n) = of_int (k div int n) / 100"
    by (simp add: floor2_def)
  have "(of_int k :: rat) = of_int ((k div int n) * int n + k mod int n)" by simp
  also have "\<dots> = of_int (k div int n) * of_nat n + of_int (k mod int n)"
    by (simp only: of_int_add of_int_mult of_int_of_nat_eq)
  finally have split: "(of_int k :: rat) = of_int (k div int n) * of_nat n + of_int (k mod int n)" .
  have t100: "roleTarget * 100 = of_int k" by (simp add: t)
  have b100: "floor2 (roleTarget / of_nat n) * 100 = of_int (k div int n)"
    by (simp add: base)
  have "(roleTarget - floor2 (roleTarget / of_nat n) * of_nat n) * 100 =
        roleTarget * 100 - floor2 (roleTarget / of_nat n) * 100 * of_nat n"
    by (simp add: algebra_simps)
  also have "\<dots> = of_int k - of_int (k div int n) * of_nat n" by (simp only: t100 b100)
  also have "\<dots> = of_int (k mod int n)" by (simp add: split)
  finally have rem:
    "(roleTarget - floor2 (roleTarget / of_nat n) * of_nat n) * 100 = of_int (k mod int n)" .
  have extra: "nat \<lfloor>(roleTarget - floor2 (roleTarget / of_nat n) * of_nat n) * 100\<rfloor> = nat (k mod int n)"
    unfolding rem by simp
  from n have lt: "nat (k mod int n) < n" "k mod int n \<ge> 0"
    by (simp_all add: nat_less_iff)
  then have m: "min (nat (k mod int n)) n = nat (k mod int n)" by simp
  have "remainder_shares roleTarget n =
        (if n = 0 then []
         else map (\<lambda>i. if i < nat (k mod int n) then floor2 (roleTarget / of_nat n) + 1 / 100
                        else floor2 (roleTarget / of_nat n)) [0..<n])"
    unfolding remainder_shares_def Let_def extra ..
  with assms(2) have shares: "remainder_shares roleTarget n =
        map (\<lambda>i. if i < nat (k mod int n) then of_int (k div int n) / 100 + 1 / 100
                  else of_int (k div int n) / 100) [0..<n]"
    by (simp add: base)
  have "sum_list (remainder_shares roleTarget n) =
        of_nat n * (of_int (k div int n) / 100) + of_nat (nat (k mod int n)) * (1 / 100)"
    unfolding shares shares_sum m ..
  also have "\<dots> = (of_int (k div int n) * of_nat n + of_int (k mod int n)) / 100"
    using lt(2) by (simp add: add_divide_distrib)
  also have "\<dots> = roleTarget" unfolding t split [symmetric] ..
  finally show ?thesis .
qed

lemma length_remainder_shares: "length (remainder_shares roleTarget n) = n"
  by (simp add: remainder_shares_def Let_def)

text \<open>
  Claim C7. For a role target with two fraction digits and \<open>n \<ge> 1\<close> members, the shares
  of the remainder distribution add up to the role target exactly; every member of the
  role receives one share, in ascending order of user identifier.
\<close>

theorem remainder_distribution_exact:
  assumes "is_cents roleTarget" and "0 \<le> roleTarget" and "n \<ge> 1"
  shows "sum_list (remainder_shares roleTarget n) = roleTarget \<and>
         length (remainder_shares roleTarget n) = n \<and>
         (length members = n \<longrightarrow>
            map fst (allocate_role roleTarget members) = sort members \<and>
            sum_list (map snd (allocate_role roleTarget members)) = roleTarget)"
proof -
  have total: "sum_list (remainder_shares roleTarget n) = roleTarget"
    using assms(1,3) by (rule remainder_shares_total)
  have "map fst (allocate_role roleTarget members) = sort members \<and>
        map snd (allocate_role roleTarget members) = remainder_shares roleTarget n"
    if "length members = n"
    using that by (simp add: allocate_role_def Let_def length_remainder_shares)
  with total show ?thesis by (simp add: length_remainder_shares)
qed

theorem remainder_distribution_exact_witness:
  "is_cents 100 \<and> (0::rat) \<le> 100 \<and> (3::nat) \<ge> 1 \<and>
   sum_list (remainder_shares 100 3) = 100 \<and>
   remainder_shares 100 3 = [3334 / 100, 3333 / 100, 3333 / 100]"
proof -
  have h: "is_cents 100" "(0::rat) \<le> 100" "(3::nat) \<ge> 1" by simp_all
  have e: "remainder_shares 100 3 = [3334 / 100, 3333 / 100, 3333 / 100]" by code_simp
  from remainder_distribution_exact [OF h, of "[]"] h e show ?thesis by simp
qed

lemma current_tab_buttons_allowed:
  "(p, r) \<in> set (current_tab_buttons m p') \<Longrightarrow>
   (status p, r) \<in> {(Draft, Published), (Published, Draft), (Published, Locked), (Locked, Archived)}"
  by (auto simp: current_tab_buttons_def split: if_splits)

lemma history_buttons_allowed:
  "(p, r) \<in> set (history_buttons m p') \<Longrightarrow>
   (status p, r) \<in> {(Draft, Published), (Published, Draft), (Published, Locked), (Locked, Archived)}"
  by (auto simp: history_buttons_def split: if_splits)

lemma status_buttons_origin:
  assumes "(p, r) \<in> set (status_buttons ui)"
  shows "(\<exists>p'. (p, r) \<in> set (current_tab_buttons (isManager ui) p')) \<or>
         (\<exists>p'. (p, r) \<in> set (history_buttons (isManager ui) p'))"
proof (cases "current_view ui")
  case Overview
  show ?thesis
  proof (cases "activeTab ui")
    case Current
    with Overview assms show ?thesis
      by (cases "selectedPeriod ui") (auto simp: status_buttons_def)
  next
    case History
    with Overview assms show ?thesis
      by (auto simp: status_buttons_def)
  qed
next
  case Create
  with assms show ?thesis by (simp add: status_buttons_def)
qed

text \<open>
  Claim C10. Every status change that the overview offers is one of draft to published,
  published to draft, published to locked, locked to archived.
\<close>

theorem status_requests_allowed:
  "\<forall>(current, requested) \<in> set (requested_transitions ui).
     (current, requested) \<in>
       {(Draft, Published), (Published, Draft), (Published, Locked), (Locked, Archived)}"
proof -
  have "(current, requested) \<in>
       {(Draft, Published), (Published, Draft), (Published, Locked), (Locked, Archived)}"
    if "(current, requested) \<in> set (requested_transitions ui)" for current requested
  proof -
    from that obtain p where p: "(p, requested) \<in> set (status_buttons ui)"
      and c: "current = status p"
      by (auto simp: requested_transitions_def handleStatusChange_def)
    from status_buttons_origin [OF p]
    have "(status p, requested) \<in>
         {(Draft, Published), (Published, Draft), (Published, Locked), (Locked, Archived)}"
      using current_tab_buttons_allowed history_buttons_allowed by blast
    then show ?thesis unfolding c .
  qed
  then show ?thesis by blast
qed

theorem status_requests_allowed_witness:
  "requested_transitions
     \<lparr>isManager = True, current_view = Overview, activeTab = History, selectedPeriod = None,
      historyPeriods =
        [\<lparr>summary_id = ''p1'', year = 2025, month = 1, status = Draft\<rparr>,
         \<lparr>summary_id = ''p2'', year = 2025, month = 2, status = Published\<rparr>,
         \<lparr>summary_id = ''p3'', year = 2025, month = 3, status = Locked\<rparr>,
         \<lparr>summary_id = ''p4'', year = 2025, month = 4, status = Archived\<rparr>]\<rparr> =
     [(Draft, Published), (Published, Draft), (Published, Locked), (Locked, Archived)] \<and>
   set (requested_transitions
     \<lparr>isManager = True, current_view = Overview, activeTab = History, selectedPeriod = None,
      historyPeriods =
        [\<lparr>summary_id = ''p1'', year = 2025, month = 1, status = Draft\<rparr>,
         \<lparr>summary_id = ''p2'', year = 2025, month = 2, status = Published\<rparr>,
         \<lparr>summary_id = ''p3'', year = 2025, month = 3, status = Locked\<rparr>,
         \<lparr>summary_id = ''p4'', year = 2025, month = 4, status = Archived\<rparr>]\<rparr>) \<subseteq>
     {(Draft, Published), (Published, Draft), (Published, Locked), (Locked, Archived)}"
proof -
  let ?ui = "\<lparr>isManager = True, current_view = Overview, activeTab = History, selectedPeriod = None,
      historyPeriods =
        [\<lparr>summary_id = ''p1'', year = 2025, month = 1, status = Draft\<rparr>,
         \<lparr>summary_id = ''p2'', year = 2025, month = 2, status = Published\<rparr>,
         \<lparr>summary_id = ''p3'', year = 2025, month = 3, status = Locked\<rparr>,
         \<lparr>summary_id = ''p4'', year = 2025, month = 4, status = Archived\<rparr>]\<rparr>"
  have e: "requested_transitions ?ui =
     [(Draft, Published), (Published, Draft), (Published, Locked), (Locked, Archived)]"
    by (simp add: requested_transitions_def status_buttons_def history_buttons_def
        handleStatusChange_def)
  have "set (requested_transitions ?ui) \<subseteq>
     {(Draft, Published), (Published, Draft), (Published, Locked), (Locked, Archived)}"
    using status_requests_allowed [of ?ui] by blast
  with e show ?thesis by blast
qed

lemma config_writes_not_recompute: "RecomputeUserWeekTargets \<notin> set (config_writes numWeeks)"
  by (auto simp: config_writes_def)

lemma start_trace_invoked: "e \<in> set (trace (start_save sel n)) \<Longrightarrow> \<exists>q \<in> set (config_writes n). e = Invoked q"
  by (auto simp: start_save_def split: if_splits)

lemma settles_once:
  "save_reaches sel n s \<Longrightarrow> \<not> (Resolved q \<in> set (trace s) \<and> Rejected q \<in> set (trace s))"
proof (induction rule: save_reaches.induct)
  case start
  show ?case using start_trace_invoked [of _ sel n] by blast
next
  case (step s s')
  from step.hyps(2) step.IH show ?case
    by (cases rule: save_step.cases) (auto simp: pending_def)
qed

lemma recompute_invariant:
  "save_reaches sel n s \<Longrightarrow>
   ((phase s = Returned \<or> phase s = AwaitSaves) \<longrightarrow>
      Invoked RecomputeUserWeekTargets \<notin> set (trace s)) \<and>
   (Invoked RecomputeUserWeekTargets \<in> set (trace s) \<longrightarrow>
      (\<exists>pre post. trace s = pre @ Invoked RecomputeUserWeekTargets # post \<and>
         Invoked RecomputeUserWeekTargets \<notin> set pre \<and>
         (\<forall>q \<in> set (config_writes n). Resolved q \<in> set pre)))"
proof (induction rule: save_reaches.induct)
  case start
  have "Invoked RecomputeUserWeekTargets \<notin> set (trace (start_save sel n))"
    using start_trace_invoked [of "Invoked RecomputeUserWeekTargets" sel n]
      config_writes_not_recompute [of n] by auto
  then show ?case by blast
next
  case (step s s')
  let ?rc = "Invoked RecomputeUserWeekTargets"
  let ?good = "\<lambda>t. \<exists>pre post. t = pre @ ?rc # post \<and> ?rc \<notin> set pre \<and>
                   (\<forall>q \<in> set (config_writes n). Resolved q \<in> set pre)"
  have extend: "?good (t @ [e])" if "?good t" for t e
  proof -
    from that obtain pre post where "t = pre @ ?rc # post" "?rc \<notin> set pre"
      "\<forall>q \<in> set (config_writes n). Resolved q \<in> set pre" by blast
    then have "t @ [e] = pre @ ?rc # (post @ [e])" by simp
    with \<open>?rc \<notin> set pre\<close> \<open>\<forall>q \<in> set (config_writes n). Resolved q \<in> set pre\<close>
    show ?thesis by blast
  qed
  from step.hyps(2) show ?case
  proof (cases rule: save_step.cases)
    case (resolve q)
    with step.IH extend [of "trace s" "Resolved q"] show ?thesis by auto
  next
    case (reject q)
    with step.IH extend [of "trace s" "Rejected q"] show ?thesis by auto
  next
    case saves_done
    with step.IH have fresh: "?rc \<notin> set (trace s)" by blast
    from saves_done have "\<forall>q \<in> set (config_writes n). Resolved q \<in> set (trace s)"
      by (simp add: all_fulfilled_def list_all_iff)
    with fresh have "?good (trace s @ [?rc])" by blast
    with saves_done show ?thesis by simp
  next
    case saves_failed
    with step.IH show ?thesis by auto
  next
    case recompute_done
    with step.IH extend [of "trace s" "Invoked RefreshPeriods"] show ?thesis by auto
  next
    case recompute_failed
    with step.IH show ?thesis by auto
  next
    case refresh_done
    with step.IH show ?thesis by auto
  next
    case refresh_failed
    with step.IH show ?thesis by auto
  qed
qed

text \<open>
  Claim C8. In every run of \<open>handleSaveTargets\<close>, when the recompute request is invoked
  all configuration writes (the monthly targets, the weekly distribution and the role
  weights of every week) have been resolved before it; and a run in which one of these
  writes is rejected never invokes the recompute request.
\<close>

theorem recompute_after_all_writes:
  assumes "save_reaches periodSelected numWeeks s"
  shows "(Invoked RecomputeUserWeekTargets \<in> set (trace s) \<longrightarrow>
            (\<exists>pre post. trace s = pre @ Invoked RecomputeUserWeekTargets # post \<and>
               Invoked RecomputeUserWeekTargets \<notin> set pre \<and>
               (\<forall>q \<in> set (config_writes numWeeks). Resolved q \<in> set pre))) \<and>
         ((\<exists>q \<in> set (config_writes numWeeks). Rejected q \<in> set (trace s)) \<longrightarrow>
            Invoked RecomputeUserWeekTargets \<notin> set (trace s))"
proof (intro conjI impI)
  assume "Invoked RecomputeUserWeekTargets \<in> set (trace s)"
  with recompute_invariant [OF assms]
  show "\<exists>pre post. trace s = pre @ Invoked RecomputeUserWeekTargets # post \<and>
          Invoked RecomputeUserWeekTargets \<notin> set pre \<and>
          (\<forall>q \<in> set (config_writes numWeeks). Resolved q \<in> set pre)"
    by blast
next
  assume "\<exists>q \<in> set (config_writes numWeeks). Rejected q \<in> set (trace s)"
  then obtain q where q: "q \<in> set (config_writes numWeeks)" "Rejected q \<in> set (trace s)"
    by blast
  show "Invoked RecomputeUserWeekTargets \<notin> set (trace s)"
  proof
    assume "Invoked RecomputeUserWeekTargets \<in> set (trace s)"
    with recompute_invariant [OF assms] obtain pre post
      where "trace s = pre @ Invoked RecomputeUserWeekTargets # post"
        and "\<forall>q \<in> set (config_writes numWeeks). Resolved q \<in> set pre"
      by blast
    with q(1) have "Resolved q \<in> set (trace s)" by simp
    with q(2) settles_once [OF assms, of q] show False by blast
  qed
qed

lemma successful_run:
  "save_reaches True 1
     \<lparr>trace = [Invoked (UpsertWeeklyRoleWeights 1), Invoked UpsertMonthlyTargets,
               Invoked UpsertWeeklyDistribution, Resolved UpsertWeeklyDistribution,
               Resolved (UpsertWeeklyRoleWeights 1), Resolved UpsertMonthlyTargets,
               Invoked RecomputeUserWeekTargets],
      phase = AwaitRecompute\<rparr>"
proof -
  let ?t0 = "[Invoked (UpsertWeeklyRoleWeights 1), Invoked UpsertMonthlyTargets,
              Invoked UpsertWeeklyDistribution]"
  have "start_save True 1 = \<lparr>trace = ?t0, phase = AwaitSaves\<rparr>"
    by (simp add: start_save_def config_writes_def)
  with save_reaches.start [of True 1]
  have r0: "save_reaches True 1 \<lparr>trace = ?t0, phase = AwaitSaves\<rparr>" by simp
  have "save_step 1 \<lparr>trace = ?t0, phase = AwaitSaves\<rparr>
          (\<lparr>trace = ?t0, phase = AwaitSaves\<rparr>
             \<lparr>trace := trace \<lparr>trace = ?t0, phase = AwaitSaves\<rparr> @ [Resolved UpsertWeeklyDistribution]\<rparr>)"
    by (rule save_step.resolve) (simp add: pending_def)
  with r0 have r1: "save_reaches True 1
      \<lparr>trace = ?t0 @ [Resolved UpsertWeeklyDistribution], phase = AwaitSaves\<rparr>"
    using save_reaches.step by fastforce
  have "save_step 1 \<lparr>trace = ?t0 @ [Resolved UpsertWeeklyDistribution], phase = AwaitSaves\<rparr>
          (\<lparr>trace = ?t0 @ [Resolved UpsertWeeklyDistribution], phase = AwaitSaves\<rparr>
             \<lparr>trace := trace \<lparr>trace = ?t0 @ [Resolved UpsertWeeklyDistribution], phase = AwaitSaves\<rparr>
                @ [Resolved (UpsertWeeklyRoleWeights 1)]\<rparr>)"
    by (rule save_step.resolve) (simp add: pending_def)
  with r1 have r2: "save_reaches True 1
      \<lparr>trace = ?t0 @ [Resolved UpsertWeeklyDistribution, Resolved (UpsertWeeklyRoleWeights 1)],
       phase = AwaitSaves\<rparr>"
    using save_reaches.step by fastforce
  have "save_step 1
          \<lparr>trace = ?t0 @ [Resolved UpsertWeeklyDistribution, Resolved (UpsertWeeklyRoleWeights 1)],
           phase = AwaitSaves\<rparr>
          (\<lparr>trace = ?t0 @ [Resolved UpsertWeeklyDistribution, Resolved (UpsertWeeklyRoleWeights 1)],
            phase = AwaitSaves\<rparr>
             \<lparr>trace := trace \<lparr>trace = ?t0 @ [Resolved UpsertWeeklyDistribution,
                                               Resolved (UpsertWeeklyRoleWeights 1)],
                               phase = AwaitSaves\<rparr>
                @ [Resolved UpsertMonthlyTargets]\<rparr>)"
    by (rule save_step.resolve) (simp add: pending_def)
  with r2 have r3: "save_reaches True 1
      \<lparr>trace = ?t0 @ [Resolved UpsertWeeklyDistribution, Resolved (UpsertWeeklyRoleWeights 1),
                      Resolved UpsertMonthlyTargets],
       phase = AwaitSaves\<rparr>"
    using save_reaches.step by fastforce
  have "save_step 1
          \<lparr>trace = ?t0 @ [Resolved UpsertWeeklyDistribution, Resolved (UpsertWeeklyRoleWeights 1),
                          Resolved UpsertMonthlyTargets],
           phase = AwaitSaves\<rparr>
          \<lparr>trace = trace \<lparr>trace = ?t0 @ [Resolved UpsertWeeklyDistribution,
                                          Resolved (UpsertWeeklyRoleWeights 1),
                                          Resolved UpsertMonthlyTargets],
                          phase = AwaitSaves\<rparr> @ [Invoked RecomputeUserWeekTargets],
           phase = AwaitRecompute\<rparr>"
    by (rule save_step.saves_done) (simp_all add: all_fulfilled_def config_writes_def)
  with r3 show ?thesis
    using save_reaches.step by fastforce
qed

lemma failed_run:
  "save_reaches True 0
     \<lparr>trace = [Invoked UpsertMonthlyTargets, Invoked UpsertWeeklyDistribution,
               Rejected UpsertMonthlyTargets],
      phase = Failed\<rparr>"
proof -
  let ?t0 = "[Invoked UpsertMonthlyTargets, Invoked UpsertWeeklyDistribution]"
  have "start_save True 0 = \<lparr>trace = ?t0, phase = AwaitSaves\<rparr>"
    by (simp add: start_save_def config_writes_def)
  with save_reaches.start [of True 0]
  have r0: "save_reaches True 0 \<lparr>trace = ?t0, phase = AwaitSaves\<rparr>" by simp
  have "save_step 0 \<lparr>trace = ?t0, phase = AwaitSaves\<rparr>
          (\<lparr>trace = ?t0, phase = AwaitSaves\<rparr>
             \<lparr>trace := trace \<lparr>trace = ?t0, phase = AwaitSaves\<rparr> @ [Rejected UpsertMonthlyTargets]\<rparr>)"
    by (rule save_step.reject) (simp add: pending_def)
  with r0 have r1: "save_reaches True 0
      \<lparr>trace = ?t0 @ [Rejected UpsertMonthlyTargets], phase = AwaitSaves\<rparr>"
    using save_reaches.step by fastforce
  have "save_step 0 \<lparr>trace = ?t0 @ [Rejected UpsertMonthlyTargets], phase = AwaitSaves\<rparr>
          (\<lparr>trace = ?t0 @ [Rejected UpsertMonthlyTargets], phase = AwaitSaves\<rparr>
             \<lparr>phase := Failed\<rparr>)"
    by (rule save_step.saves_failed) (simp_all add: some_rejected_def config_writes_def)
  with r1 show ?thesis
    using save_reaches.step by fastforce
qed

theorem recompute_after_all_writes_witness:
  "save_reaches True 1
     \<lparr>trace = [Invoked (UpsertWeeklyRoleWeights 1), Invoked UpsertMonthlyTargets,
               Invoked UpsertWeeklyDistribution, Resolved UpsertWeeklyDistribution,
               Resolved (UpsertWeeklyRoleWeights 1), Resolved UpsertMonthlyTargets,
               Invoked RecomputeUserWeekTargets],
      phase = AwaitRecompute\<rparr> \<and>
   Invoked RecomputeUserWeekTargets \<in> set
     [Invoked (UpsertWeeklyRoleWeights 1), Invoked UpsertMonthlyTargets,
      Invoked UpsertWeeklyDistribution, Resolved UpsertWeeklyDistribution,
      Resolved (UpsertWeeklyRoleWeights 1), Resolved UpsertMonthlyTargets,
      Invoked RecomputeUserWeekTargets] \<and>
   save_reaches True 0
     \<lparr>trace = [Invoked UpsertMonthlyTargets, Invoked UpsertWeeklyDistribution,
               Rejected UpsertMonthlyTargets],
      phase = Failed\<rparr> \<and>
   (\<exists>q \<in> set (config_writes 0). Rejected q \<in> set
     [Invoked UpsertMonthlyTargets, Invoked UpsertWeeklyDistribution,
      Rejected UpsertMonthlyTargets]) \<and>
   Invoked RecomputeUserWeekTargets \<notin> set
     [Invoked UpsertMonthlyTargets, Invoked UpsertWeeklyDistribution,
      Rejected UpsertMonthlyTargets]"
  using recompute_after_all_writes [OF successful_run] recompute_after_all_writes [OF failed_run]
    successful_run failed_run
  by (simp add: config_writes_def)

section \<open>Facts about double-precision rounding\<close>

lemma round_half_even_near: "\<bar>of_int (round_half_even k) - k\<bar> \<le> 1 / 2"
proof -
  have f: "of_int \<lfloor>k\<rfloor> \<le> k" "k < of_int \<lfloor>k\<rfloor> + 1" by linarith+
  consider "k - of_int \<lfloor>k\<rfloor> < 1 / 2" | "k - of_int \<lfloor>k\<rfloor> > 1 / 2" | "k - of_int \<lfloor>k\<rfloor> = 1 / 2"
    by linarith
  then show ?thesis
  proof cases
    case 1
    then have "round_half_even k = \<lfloor>k\<rfloor>" by (simp add: round_half_even_def Let_def)
    with f 1 show ?thesis by (simp | linarith)+
  next
    case 2
    then have "round_half_even k = \<lfloor>k\<rfloor> + 1" by (simp add: round_half_even_def Let_def)
    with f 2 show ?thesis by (simp | linarith)+
  next
    case 3
    then have "round_half_even k = \<lfloor>k\<rfloor> \<or> round_half_even k = \<lfloor>k\<rfloor> + 1"
      by (simp add: round_half_even_def Let_def)
    with f 3 show ?thesis by (elim disjE) (simp | linarith)+
  qed
qed

lemma round_half_even_unique:
  assumes "\<bar>k - of_int m\<bar> < 1 / 2"
  shows "round_half_even k = m"
proof -
  have "\<bar>of_int (round_half_even k) - k\<bar> \<le> 1 / 2" by (rule round_half_even_near)
  with assms have "\<bar>(of_int (round_half_even k) :: rat) - of_int m\<bar> < 1" by linarith
  then have "\<bar>(of_int (round_half_even k - m) :: rat)\<bar> < 1" by simp
  then have "\<bar>round_half_even k - m\<bar> < 1" by (metis of_int_abs of_int_less_1_iff)
  then show ?thesis by simp
qed

lemma round_half_even_of_int: "round_half_even (of_int m) = m"
  by (rule round_half_even_unique) simp

lemma round_half_even_nonneg: "0 \<le> k \<Longrightarrow> 0 \<le> round_half_even k"
proof -
  assume "0 \<le> k"
  then have "0 \<le> \<lfloor>k\<rfloor>" by simp
  then show ?thesis unfolding round_half_even_def Let_def by simp
qed

lemma ilog2_bounds:
  assumes "0 < x"
  shows "2 powi ilog2 x \<le> x \<and> x < 2 powi (ilog2 x + 1)"
proof -
  obtain p q where pq: "quotient_of x = (p, q)" by (cases "quotient_of x")
  then have q: "0 < q" and x: "x = of_int p / of_int q"
    by (simp_all add: quotient_of_denom_pos quotient_of_div)
  with assms have p: "0 < p" by (simp add: zero_less_divide_iff)
  let ?e = "bitlen p - bitlen q"
  from bitlen_bounds [OF p] have p1: "2 ^ nat (bitlen p - 1) \<le> p" and p2: "p < 2 ^ nat (bitlen p)" by blast+
  from bitlen_bounds [OF q] have q1: "2 ^ nat (bitlen q - 1) \<le> q" and q2: "q < 2 ^ nat (bitlen q)" by blast+
  have bp: "1 \<le> bitlen p" using p by (metis bitlen_eq_zero_iff bitlen_nonneg not_less order_le_less zless_imp_add1_zle zero_less_one add.left_neutral)
  have bq: "1 \<le> bitlen q" using q by (metis bitlen_eq_zero_iff bitlen_nonneg not_less order_le_less zless_imp_add1_zle zero_less_one add.left_neutral)
  have P1: "(2::rat) powi (bitlen p - 1) \<le> of_int p"
    using p1 bp by (simp add: power_int_nonneg_exp)
  have P2: "of_int p < (2::rat) powi (bitlen p)"
    using p2 bp by (simp add: power_int_nonneg_exp)
  have Q1: "(2::rat) powi (bitlen q - 1) \<le> of_int q"
    using q1 bq by (simp add: power_int_nonneg_exp)
  have Q2: "of_int q < (2::rat) powi (bitlen q)"
    using q2 bq by (simp add: power_int_nonneg_exp)
  have qpos: "(0::rat) < of_int q" using q by simp
  have up: "x < 2 powi (?e + 1)"
  proof -
    have "of_int p < (2::rat) powi (bitlen p)" by (rule P2)
    also have "\<dots> = 2 powi (?e + 1) * 2 powi (bitlen q - 1)"
      by (simp add: power_int_add [symmetric])
    also have "\<dots> \<le> 2 powi (?e + 1) * of_int q"
      using Q1 by (intro mult_left_mono) simp_all
    finally show ?thesis unfolding x using qpos by (simp add: pos_divide_less_eq)
  qed
  have low: "2 powi (?e - 1) < x"
  proof -
    have "2 powi (?e - 1) * of_int q < 2 powi (?e - 1) * (2::rat) powi (bitlen q)"
      using Q2 by (intro mult_strict_left_mono) simp_all
    also have "\<dots> = 2 powi (bitlen p - 1)" by (simp add: power_int_add [symmetric])
    also have "\<dots> \<le> of_int p" by (rule P1)
    finally show ?thesis unfolding x using qpos by (simp add: pos_less_divide_eq)
  qed
  show ?thesis
  proof (cases "2 powi ?e \<le> x")
    case True
    then have "ilog2 x = ?e" by (simp add: ilog2_def pq)
    with True up show ?thesis by simp
  next
    case False
    then have "ilog2 x = ?e - 1" by (simp add: ilog2_def pq)
    with False low show ?thesis by simp
  qed
qed

lemma ilog2_unique:
  assumes "2 powi e \<le> x" and "x < 2 powi (e + 1)"
  shows "ilog2 x = e"
proof -
  have "(0::rat) < 2 powi e" by simp
  with assms(1) have pos: "0 < x" by linarith
  from ilog2_bounds [OF pos] have l: "2 powi ilog2 x \<le> x" and h: "x < 2 powi (ilog2 x + 1)" by blast+
  have "\<not> ilog2 x < e"
  proof
    assume "ilog2 x < e"
    then have "ilog2 x + 1 \<le> e" by simp
    then have "(2::rat) powi (ilog2 x + 1) \<le> 2 powi e" by (intro power_int_increasing) simp_all
    with h assms(1) show False by linarith
  qed
  moreover have "\<not> e < ilog2 x"
  proof
    assume "e < ilog2 x"
    then have "e + 1 \<le> ilog2 x" by simp
    then have "(2::rat) powi (e + 1) \<le> 2 powi ilog2 x" by (intro power_int_increasing) simp_all
    with l assms(2) show False by linarith
  qed
  ultimately show ?thesis by simp
qed

lemma pow2_add: "(2::rat) powi (a + b) = 2 powi a * 2 powi b"
  by (simp add: power_int_add)

lemma pow2_split: "(2::rat) powi a = 2 powi (a - b) * 2 powi b"
  using pow2_add [of "a - b" b] by simp

lemma grid_step_pos: "0 < grid_step" and half_step_pos: "0 < half_step"
  and min_normal_pos: "0 < min_normal"
  unfolding grid_step_def half_step_def min_normal_def by (rule zero_less_power_int, simp)+

lemma on_grid_iff: "on_grid x \<longleftrightarrow> (\<exists>m::int. x = of_int m * grid_step)"
proof
  assume "on_grid x"
  then have "of_int \<lfloor>x / grid_step\<rfloor> = x / grid_step" unfolding on_grid_def .
  then have "x = of_int \<lfloor>x / grid_step\<rfloor> * grid_step"
    using grid_step_pos by (metis less_irrefl nonzero_divide_eq_eq)
  then show "\<exists>m::int. x = of_int m * grid_step" ..
next
  assume "\<exists>m::int. x = of_int m * grid_step"
  then obtain m :: int where "x = of_int m * grid_step" ..
  then have "x / grid_step = of_int m" using grid_step_pos by simp
  then show "on_grid x" unfolding on_grid_def by (simp only: floor_of_int)
qed

lemma on_grid_add: "on_grid a \<Longrightarrow> on_grid b \<Longrightarrow> on_grid (a + b)"
  unfolding on_grid_iff
proof -
  assume "\<exists>m::int. a = of_int m * grid_step" "\<exists>m::int. b = of_int m * grid_step"
  then obtain m n :: int where "a = of_int m * grid_step" "b = of_int n * grid_step"
    by blast
  then have "a + b = of_int (m + n) * grid_step" by (simp add: algebra_simps)
  then show "\<exists>m::int. a + b = of_int m * grid_step" ..
qed

lemma on_grid_minus: "on_grid a \<Longrightarrow> on_grid (- a)"
  unfolding on_grid_iff
proof -
  assume "\<exists>m::int. a = of_int m * grid_step"
  then obtain m :: int where "a = of_int m * grid_step" ..
  then have "- a = of_int (- m) * grid_step" by simp
  then show "\<exists>m::int. - a = of_int m * grid_step" ..
qed

lemma on_grid_diff: "on_grid a \<Longrightarrow> on_grid b \<Longrightarrow> on_grid (a - b)"
  using on_grid_add [of a "- b"] on_grid_minus [of b] by simp

lemma on_grid_of_int: "on_grid (of_int m)"
proof -
  have "(2::rat) powi 1074 = of_int (2 ^ 1074)" by (simp only: power_int_numeral of_int_power of_int_numeral)
  moreover have "(1::rat) = 2 powi 1074 * grid_step"
    unfolding grid_step_def using pow2_add [of 1074 "- 1074"] by simp
  ultimately have "of_int m = of_int (m * 2 ^ 1074) * grid_step"
    by (simp only: of_int_mult mult.assoc [symmetric]) (simp only: mult.assoc mult_1_right [symmetric])
  then show ?thesis unfolding on_grid_iff ..
qed

lemma on_grid_0: "on_grid 0" and on_grid_100: "on_grid 100"
  using on_grid_of_int [of 0] on_grid_of_int [of 100] by simp_all

lemma round_double_unfold:
  assumes "x \<noteq> 0"
  shows "round_double x =
    of_int (round_half_even (x / 2 powi (max (ilog2 \<bar>x\<bar>) (- 1022) - 52))) *
      2 powi (max (ilog2 \<bar>x\<bar>) (- 1022) - 52)"
  using assms by (simp add: round_double_def Let_def)

lemma round_double_half_ulp:
  "\<bar>round_double x - x\<bar> \<le> 2 powi (max (ilog2 \<bar>x\<bar>) (- 1022) - 53)"
proof (cases "x = 0")
  case True
  then show ?thesis by (simp add: round_double_def)
next
  case False
  let ?e = "max (ilog2 \<bar>x\<bar>) (- 1022)"
  let ?ulp = "(2::rat) powi (?e - 52)"
  let ?k = "x / ?ulp"
  have ulp: "0 < ?ulp" by simp
  have "\<bar>of_int (round_half_even ?k) - ?k\<bar> \<le> 1 / 2" by (rule round_half_even_near)
  then have "\<bar>of_int (round_half_even ?k) - ?k\<bar> * ?ulp \<le> 1 / 2 * ?ulp"
    using ulp by (intro mult_right_mono) simp_all
  moreover have "\<bar>of_int (round_half_even ?k) - ?k\<bar> * ?ulp =
      \<bar>of_int (round_half_even ?k) * ?ulp - x\<bar>"
  proof -
    have "\<bar>of_int (round_half_even ?k) - ?k\<bar> * ?ulp = \<bar>(of_int (round_half_even ?k) - ?k) * ?ulp\<bar>"
      using ulp by (simp add: abs_mult)
    also have "(of_int (round_half_even ?k) - ?k) * ?ulp = of_int (round_half_even ?k) * ?ulp - x"
      using ulp by (simp add: left_diff_distrib)
    finally show ?thesis .
  qed
  moreover have "1 / 2 * ?ulp = 2 powi (?e - 53)"
  proof -
    have "(2::rat) powi (?e - 52) = 2 powi (?e - 53) * 2 powi 1"
      using pow2_add [of "?e - 53" 1] by simp
    then show ?thesis by simp
  qed
  ultimately show ?thesis by (simp only: round_double_unfold [OF False])
qed

lemma round_double_normal:
  assumes "min_normal \<le> \<bar>x\<bar>"
  shows "\<bar>round_double x - x\<bar> \<le> \<bar>x\<bar> / 2 ^ 53"
proof -
  have pos: "0 < \<bar>x\<bar>" using assms min_normal_pos by linarith
  from ilog2_bounds [OF pos] have l: "2 powi ilog2 \<bar>x\<bar> \<le> \<bar>x\<bar>"
    and h: "\<bar>x\<bar> < 2 powi (ilog2 \<bar>x\<bar> + 1)" by blast+
  have "\<not> ilog2 \<bar>x\<bar> + 1 \<le> - 1022"
  proof
    assume "ilog2 \<bar>x\<bar> + 1 \<le> - 1022"
    then have "(2::rat) powi (ilog2 \<bar>x\<bar> + 1) \<le> min_normal"
      unfolding min_normal_def by (intro power_int_increasing) simp_all
    with h assms show False by linarith
  qed
  then have e: "max (ilog2 \<bar>x\<bar>) (- 1022) = ilog2 \<bar>x\<bar>" by simp
  have "(2::rat) powi (ilog2 \<bar>x\<bar> - 53) = 2 powi ilog2 \<bar>x\<bar> * 2 powi (- 53)"
    using pow2_add [of "ilog2 \<bar>x\<bar>" "- 53"] by simp
  also have "\<dots> = 2 powi ilog2 \<bar>x\<bar> / 2 ^ 53" by (simp add: power_int_minus field_simps)
  also have "\<dots> \<le> \<bar>x\<bar> / 2 ^ 53" using l by (intro divide_right_mono) simp_all
  finally show ?thesis using round_double_half_ulp [of x] unfolding e by linarith
qed

lemma round_double_subnormal:
  assumes "\<bar>x\<bar> < min_normal"
  shows "max (ilog2 \<bar>x\<bar>) (- 1022) = - 1022 \<or> x = 0"
proof (cases "x = 0")
  case True
  then show ?thesis by simp
next
  case False
  then have pos: "0 < \<bar>x\<bar>" by simp
  from ilog2_bounds [OF pos] have l: "2 powi ilog2 \<bar>x\<bar> \<le> \<bar>x\<bar>" by blast
  have "\<not> - 1022 \<le> ilog2 \<bar>x\<bar>"
  proof
    assume "- 1022 \<le> ilog2 \<bar>x\<bar>"
    then have "min_normal \<le> 2 powi ilog2 \<bar>x\<bar>"
      unfolding min_normal_def by (intro power_int_increasing) simp_all
    with l assms show False by linarith
  qed
  then show ?thesis by simp
qed

lemma round_double_error:
  "\<bar>round_double x - x\<bar> \<le> \<bar>x\<bar> / 2 ^ 53 + half_step"
proof (cases "min_normal \<le> \<bar>x\<bar>")
  case True
  from round_double_normal [OF True] half_step_pos
  show ?thesis by linarith
next
  case False
  then have "\<bar>x\<bar> < min_normal" by simp
  from round_double_subnormal [OF this] show ?thesis
  proof
    assume "x = 0"
    then show ?thesis using half_step_pos by (simp add: round_double_def)
  next
    assume "max (ilog2 \<bar>x\<bar>) (- 1022) = - 1022"
    with round_double_half_ulp [of x] have "\<bar>round_double x - x\<bar> \<le> half_step"
      unfolding half_step_def by simp
    moreover have "0 \<le> \<bar>x\<bar> / 2 ^ 53" by simp
    ultimately show ?thesis by linarith
  qed
qed

lemma round_double_on_grid: "on_grid (round_double x)"
proof (cases "x = 0")
  case True
  then show ?thesis by (simp add: round_double_def on_grid_0)
next
  case False
  let ?e = "max (ilog2 \<bar>x\<bar>) (- 1022)"
  let ?m = "round_half_even (x / 2 powi (?e - 52))"
  have "0 \<le> ?e + 1022" by simp
  then have "(2::rat) powi (?e + 1022) = of_int (2 ^ nat (?e + 1022))"
    by (simp add: power_int_nonneg_exp)
  moreover have "(2::rat) powi (?e - 52) = 2 powi (?e + 1022) * grid_step"
    unfolding grid_step_def using pow2_add [of "?e + 1022" "- 1074"] by simp
  ultimately have "round_double x = of_int (?m * 2 ^ nat (?e + 1022)) * grid_step"
    by (simp only: round_double_unfold [OF False] of_int_mult mult.assoc)
  then show ?thesis unfolding on_grid_iff ..
qed

lemma round_double_exact_small:
  assumes "on_grid x" and "\<bar>x\<bar> < min_normal"
  shows "round_double x = x"
proof (cases "x = 0")
  case True
  then show ?thesis by (simp add: round_double_def)
next
  case False
  with round_double_subnormal [OF assms(2)] have e: "max (ilog2 \<bar>x\<bar>) (- 1022) = - 1022" by simp
  from assms(1) obtain m :: int where m: "x = of_int m * grid_step" unfolding on_grid_iff ..
  have "x / grid_step = of_int m" using grid_step_pos by (simp add: m)
  moreover have "(2::rat) powi (- 1022 - 52) = grid_step" unfolding grid_step_def by simp
  ultimately show ?thesis
    unfolding round_double_unfold [OF False] e by (simp only: round_half_even_of_int m)
qed

lemma round_double_relative:
  assumes "on_grid x"
  shows "\<bar>round_double x - x\<bar> \<le> \<bar>x\<bar> / 2 ^ 53"
proof (cases "min_normal \<le> \<bar>x\<bar>")
  case True
  then show ?thesis by (rule round_double_normal)
next
  case False
  then have "\<bar>x\<bar> < min_normal" by simp
  with assms have "round_double x = x" by (rule round_double_exact_small)
  then show ?thesis by simp
qed

lemma round_double_nonneg: "0 \<le> x \<Longrightarrow> 0 \<le> round_double x"
proof (cases "x = 0")
  case True
  then show ?thesis by (simp add: round_double_def)
next
  case False
  assume "0 \<le> x"
  then have "0 \<le> x / 2 powi (max (ilog2 \<bar>x\<bar>) (- 1022) - 52)" by simp
  then have "0 \<le> round_half_even (x / 2 powi (max (ilog2 \<bar>x\<bar>) (- 1022) - 52))"
    by (rule round_half_even_nonneg)
  then show ?thesis unfolding round_double_unfold [OF False] by simp
qed

lemma is_double_on_grid: "is_double x \<Longrightarrow> on_grid x"
  using round_double_on_grid [of x] by (simp add: is_double_def)

lemma unit_roundoff_pos: "0 < unit_roundoff" and unit_roundoff_small: "unit_roundoff \<le> 1 / 2 ^ 53"
  by (simp_all add: unit_roundoff_def)

lemma round_double_rel: "on_grid x \<Longrightarrow> \<bar>round_double x - x\<bar> \<le> unit_roundoff * \<bar>x\<bar>"
  using round_double_relative [of x] by (simp add: unit_roundoff_def)

lemma round_double_err: "\<bar>round_double x - x\<bar> \<le> unit_roundoff * \<bar>x\<bar> + half_step"
  using round_double_error [of x] by (simp add: unit_roundoff_def)

lemma overflow_threshold_big: "2 ^ 202 \<le> overflow_threshold"
  unfolding overflow_threshold_def by (rule power_increasing) simp_all

lemma half_step_le_1: "half_step \<le> 1"
proof -
  have "(2::rat) powi (- 1075) \<le> 2 powi 0" by (intro power_int_increasing) simp_all
  then show ?thesis by (simp add: half_step_def del: power_int_numeral_neg_numeral)
qed

lemma to_double_finite:
  assumes "\<bar>x\<bar> \<le> 2 ^ 200"
  shows "to_double x = Inr (round_double x)"
proof -
  have "unit_roundoff * \<bar>x\<bar> \<le> 1 * \<bar>x\<bar>"
    by (intro mult_right_mono) (simp_all add: unit_roundoff_def)
  with round_double_err [of x] half_step_le_1 assms
  have "\<bar>round_double x\<bar> \<le> 2 ^ 200 + 2 ^ 200 + 1" by linarith
  also have "\<dots> < (2::rat) ^ 202" by simp
  finally have "\<bar>round_double x\<bar> < overflow_threshold" using overflow_threshold_big by linarith
  then show ?thesis by (simp add: to_double_def)
qed

lemma pow_upper:
  fixes U :: rat
  assumes "0 \<le> U" and "2 * of_nat n * U \<le> 1"
  shows "(1 + U) ^ n \<le> 1 + 2 * of_nat n * U"
  using assms(2)
proof (induction n)
  case 0
  show ?case by simp
next
  case (Suc n)
  from Suc.prems assms(1) have n: "2 * of_nat n * U \<le> 1"
    by (simp add: algebra_simps) linarith?
  with Suc.IH have IH: "(1 + U) ^ n \<le> 1 + 2 * of_nat n * U" by blast
  have "(1 + U) ^ Suc n = (1 + U) ^ n * (1 + U)" by simp
  also have "\<dots> \<le> (1 + 2 * of_nat n * U) * (1 + U)"
    using IH assms(1) by (intro mult_right_mono) simp_all
  also have "\<dots> = 1 + 2 * of_nat n * U + U + (2 * of_nat n * U) * U" by (simp add: algebra_simps)
  also have "(2 * of_nat n * U) * U \<le> 1 * U"
    using n assms(1) by (intro mult_right_mono) simp_all
  finally show ?case by (simp add: algebra_simps)
qed

lemma pow_lower:
  fixes U :: rat
  assumes "0 \<le> U" and "U \<le> 1"
  shows "1 - of_nat n * U \<le> (1 - U) ^ n"
proof (induction n)
  case 0
  show ?case by simp
next
  case (Suc n)
  have p: "0 \<le> (1 - U) ^ n" using assms by simp
  have q: "(1 - U) ^ n \<le> 1" using assms by (simp add: power_le_one)
  have "(1 - U) ^ Suc n = (1 - U) ^ n - U * (1 - U) ^ n" by (simp add: algebra_simps)
  moreover have "U * (1 - U) ^ n \<le> U * 1" using q assms(1) by (intro mult_left_mono) simp_all
  ultimately show ?case using Suc.IH by (simp add: algebra_simps) linarith?
qed

lemma and_then_Inr [simp]: "and_then (Inr x) f = f x"
  by (simp add: and_then_def)

lemma js_add_grid:
  assumes "on_grid a" and "on_grid b" and "\<bar>a + b\<bar> \<le> 2 ^ 200"
  shows "js_add a b = Inr (round_double (a + b))"
    and "\<bar>round_double (a + b) - (a + b)\<bar> \<le> unit_roundoff * \<bar>a + b\<bar>"
    and "on_grid (round_double (a + b))"
proof -
  show "js_add a b = Inr (round_double (a + b))"
    unfolding js_add_def using assms(3) by (rule to_double_finite)
  show "\<bar>round_double (a + b) - (a + b)\<bar> \<le> unit_roundoff * \<bar>a + b\<bar>"
    using assms(1,2) by (intro round_double_rel on_grid_add)
  show "on_grid (round_double (a + b))" by (rule round_double_on_grid)
qed

lemma js_reduce_sum_bounds:
  assumes "\<forall>b \<in> set bs. on_grid b \<and> 0 \<le> b"
    and "on_grid s" and "0 \<le> s"
    and "(s + sum_list bs) * (1 + unit_roundoff) ^ length bs \<le> 2 ^ 200"
  shows "\<exists>t. js_reduce_sum s bs = Inr t \<and> on_grid t \<and>
           (s + sum_list bs) * (1 - unit_roundoff) ^ length bs \<le> t \<and>
           t \<le> (s + sum_list bs) * (1 + unit_roundoff) ^ length bs"
  using assms
proof (induction bs arbitrary: s)
  case Nil
  then show ?case by simp
next
  case (Cons b bs)
  let ?U = unit_roundoff
  let ?n = "length bs"
  let ?r = "sum_list bs"
  have U: "0 < ?U" "?U \<le> 1" using unit_roundoff_pos by (simp_all add: unit_roundoff_def)
  from Cons.prems have b: "on_grid b" "0 \<le> b" and rest: "\<forall>b \<in> set bs. on_grid b \<and> 0 \<le> b"
    by simp_all
  from rest have r0: "0 \<le> ?r" by (simp add: sum_list_nonneg)
  have sb0: "0 \<le> s + b" using Cons.prems(3) b by simp
  have p1: "1 \<le> (1 + ?U) ^ Suc ?n" using U by (intro one_le_power) simp
  have pn0: "0 \<le> (1 + ?U) ^ ?n" using U by simp
  have big: "(s + b + ?r) * (1 + ?U) ^ Suc ?n \<le> 2 ^ 200"
    using Cons.prems(4) by (simp add: algebra_simps)
  have "s + b \<le> (s + b + ?r) * 1" using r0 by simp
  also have "\<dots> \<le> (s + b + ?r) * (1 + ?U) ^ Suc ?n"
    using sb0 r0 p1 by (intro mult_left_mono) simp_all
  finally have "\<bar>s + b\<bar> \<le> 2 ^ 200" using big sb0 by simp
  from js_add_grid [OF Cons.prems(2) b(1) this]
  have add: "js_add s b = Inr (round_double (s + b))"
    and err: "\<bar>round_double (s + b) - (s + b)\<bar> \<le> ?U * \<bar>s + b\<bar>"
    and grid: "on_grid (round_double (s + b))" by blast+
  let ?s' = "round_double (s + b)"
  have s'0: "0 \<le> ?s'" using sb0 by (rule round_double_nonneg)
  from err sb0 have lo: "(s + b) * (1 - ?U) \<le> ?s'" and hi: "?s' \<le> (s + b) * (1 + ?U)"
    by (simp_all add: algebra_simps abs_le_iff)
  have hi2: "?s' + ?r \<le> (s + b + ?r) * (1 + ?U)"
  proof -
    have "?r \<le> ?r * (1 + ?U)" using r0 U by (simp add: algebra_simps)
    with hi show ?thesis by (simp add: algebra_simps)
  qed
  have lo2: "(s + b + ?r) * (1 - ?U) \<le> ?s' + ?r"
  proof -
    have "?r * (1 - ?U) \<le> ?r" using r0 U by (simp add: algebra_simps)
    with lo show ?thesis by (simp add: algebra_simps)
  qed
  have "(?s' + ?r) * (1 + ?U) ^ ?n \<le> ((s + b + ?r) * (1 + ?U)) * (1 + ?U) ^ ?n"
    using hi2 pn0 by (rule mult_right_mono)
  also have "\<dots> = (s + b + ?r) * (1 + ?U) ^ Suc ?n" by simp
  finally have up: "(?s' + ?r) * (1 + ?U) ^ ?n \<le> (s + b + ?r) * (1 + ?U) ^ Suc ?n" .
  with big have "(?s' + ?r) * (1 + ?U) ^ ?n \<le> 2 ^ 200" by linarith
  from Cons.IH [OF rest grid s'0 this] obtain t
    where t: "js_reduce_sum ?s' bs = Inr t" "on_grid t"
      "(?s' + ?r) * (1 - ?U) ^ ?n \<le> t" "t \<le> (?s' + ?r) * (1 + ?U) ^ ?n" by blast
  have qn0: "0 \<le> (1 - ?U) ^ ?n" using U by simp
  have "(s + b + ?r) * (1 - ?U) ^ Suc ?n = ((s + b + ?r) * (1 - ?U)) * (1 - ?U) ^ ?n" by simp
  also have "\<dots> \<le> (?s' + ?r) * (1 - ?U) ^ ?n" using lo2 qn0 by (rule mult_right_mono)
  finally have down: "(s + b + ?r) * (1 - ?U) ^ Suc ?n \<le> t" using t(3) by linarith
  have "js_reduce_sum s (b # bs) = Inr t" using add t(1) by simp
  moreover have "(s + sum_list (b # bs)) * (1 - ?U) ^ length (b # bs) \<le> t"
    using down by (simp add: algebra_simps)
  moreover have "t \<le> (s + sum_list (b # bs)) * (1 + ?U) ^ length (b # bs)"
    using up t(4) by (simp add: algebra_simps)
  ultimately show ?case using t(2) by blast
qed

lemma redistribution_error:
  fixes T That D dh N M U h S :: rat and n :: nat
  assumes U: "0 < U" "U \<le> 1 / 2 ^ 53"
    and h: "0 \<le> h" "2 ^ 24 * h \<le> U"
    and M: "100 \<le> M"
    and n: "of_nat n \<le> (2::rat) ^ 20"
    and T: "0 \<le> T" "T \<le> of_nat n * M"
    and That: "0 < That" "\<bar>That - T\<bar> \<le> 2 * of_nat n * U * T"
    and D: "\<bar>D\<bar> \<le> M" and dh: "\<bar>dh - D\<bar> \<le> U * \<bar>D\<bar>"
    and N: "\<bar>N - (That + dh)\<bar> \<le> U * \<bar>That + dh\<bar>" "0 \<le> N"
    and S: "\<bar>S - N * (T / That)\<bar> \<le>
              N * (T / That) * U * (2 + U) + of_nat n * (h * (1 + N * (1 + U)))"
  shows "\<bar>S - (T + D)\<bar> \<le> (of_nat n + 1) * M * (8 * U)"
proof -
  define r where "r = T / That"
  define W where "W = (of_nat n + 1) * M"
  define a where "a = 2 * of_nat n * U"
  define X where "X = That + dh"
  have n0: "(0::rat) \<le> of_nat n" by simp
  have M0: "0 < M" using M by linarith
  have nM0: "0 \<le> of_nat n * M" using n0 M0 by simp
  have W_eq: "W = of_nat n * M + M" by (simp add: W_def algebra_simps)
  have W100: "100 \<le> W" and WM: "M \<le> W" and WnM: "of_nat n * M \<le> W"
    using M nM0 M0 unfolding W_eq by linarith+
  have W0: "0 \<le> W" using W100 by linarith
  have "of_nat n * U \<le> 2 ^ 20 * (1 / 2 ^ 53)"
    using n U by (intro mult_mono) simp_all
  then have a_small: "a \<le> 1 / 17" unfolding a_def by simp
  have a0: "0 \<le> a" unfolding a_def using U by simp
  have That_T: "\<bar>That - T\<bar> \<le> a * T" using That(2) unfolding a_def .
  have aT: "a * T \<le> 1 / 17 * T" using a_small T(1) by (rule mult_right_mono)
  have T_le: "T \<le> 17 / 16 * That" using That_T aT T(1) by linarith
  have That_le: "That \<le> 17 / 16 * T" using That_T aT T(1) by linarith
  have rT: "r * That = T" unfolding r_def using That(1) by simp
  have r0: "0 \<le> r" unfolding r_def using T(1) That(1) by simp
  have r_le: "r \<le> 17 / 16"
    unfolding r_def using T_le That(1) by (simp add: pos_divide_le_eq)
  have r1: "\<bar>r - 1\<bar> \<le> 17 / 16 * a"
  proof -
    have "\<bar>r - 1\<bar> * That = \<bar>(r - 1) * That\<bar>" using That(1) by (simp add: abs_mult)
    also have "(r - 1) * That = T - That" using rT by (simp add: algebra_simps)
    also have "\<bar>T - That\<bar> \<le> a * T" using That_T by (simp add: abs_minus_commute)
    also have "a * T = (a * r) * That" using rT by (simp add: algebra_simps)
    finally have "\<bar>r - 1\<bar> * That \<le> (a * r) * That" .
    then have "\<bar>r - 1\<bar> \<le> a * r" using That(1) by (simp add: mult_le_cancel_right)
    also have "\<dots> \<le> a * (17 / 16)" using r_le a0 by (rule mult_left_mono)
    finally show ?thesis by (simp add: mult.commute)
  qed
  have "(1::rat) / 2 ^ 53 \<le> 1 / 16" by simp
  with U(2) have U16: "U \<le> 1 / 16" by linarith
  have dh_le: "\<bar>dh\<bar> \<le> 17 / 16 * M"
  proof -
    have "U * \<bar>D\<bar> \<le> 1 / 16 * M"
      using U16 D U(1) by (intro mult_mono) simp_all
    with dh D show ?thesis by linarith
  qed
  have dhD: "\<bar>dh - D\<bar> \<le> U * M"
  proof -
    have "U * \<bar>D\<bar> \<le> U * M" using D U(1) by (intro mult_left_mono) simp_all
    with dh show ?thesis by linarith
  qed
  have NX: "\<bar>N - X\<bar> \<le> U * \<bar>X\<bar>" using N(1) unfolding X_def .
  have X0: "0 \<le> X"
  proof (rule ccontr)
    assume "\<not> 0 \<le> X"
    then have neg: "X < 0" by simp
    have "U * \<bar>X\<bar> \<le> 1 / 16 * \<bar>X\<bar>" using U16 by (intro mult_right_mono) simp_all
    with NX neg have "N < 0" by linarith
    with N(2) show False by simp
  qed
  have X_le: "X \<le> 17 / 16 * W"
  proof -
    have "That \<le> 17 / 16 * (of_nat n * M)" using That_le T(2) by linarith
    moreover have "dh \<le> 17 / 16 * M" using dh_le by linarith
    ultimately show ?thesis unfolding X_def W_eq distrib_left by linarith
  qed
  have UX: "U * \<bar>X\<bar> \<le> U * (17 / 16 * W)"
    using X_le X0 U(1) by (intro mult_left_mono) simp_all
  have "U * X \<le> 1 / 16 * X" using U16 X0 by (rule mult_right_mono)
  then have UX16: "U * \<bar>X\<bar> \<le> 1 / 16 * X" using X0 by simp
  have N_le: "N \<le> 17 / 16 * X" using NX UX16 X0 by linarith
  have N_leW: "N \<le> 289 / 256 * W" using N_le X_le by linarith
  have Nr: "N * r \<le> 4913 / 4096 * W"
  proof -
    have "N * r \<le> (289 / 256 * W) * (17 / 16)"
      using N_leW r_le N(2) r0 by (intro mult_mono) simp_all
    then show ?thesis by simp
  qed
  have Nr0: "0 \<le> N * r" using N(2) r0 by simp
  \<comment> \<open>the five parts of the error\<close>
  have t1: "N * r * U * (2 + U) \<le> W * U * (163 / 64)"
  proof -
    have A: "N * r * U \<le> (4913 / 4096 * W) * U" using Nr U(1) by (simp add: mult_right_mono)
    have B: "2 + U \<le> 33 / 16" using U16 by linarith
    have C: "0 \<le> (4913 / 4096 * W) * U" using W0 U(1) by simp
    have D: "0 \<le> 2 + U" using U(1) by linarith
    have "N * r * U * (2 + U) \<le> ((4913 / 4096 * W) * U) * (33 / 16)"
      by (rule mult_mono [OF A B C D])
    also have "\<dots> = W * U * (162129 / 65536)" by simp
    also have "\<dots> \<le> W * U * (163 / 64)"
    proof -
      have "0 \<le> W * U" using W0 U(1) by simp
      then show ?thesis by (rule mult_left_mono [rotated]) simp
    qed
    finally show ?thesis .
  qed
  have t2: "of_nat n * (h * (1 + N * (1 + U))) \<le> W * U * (1 / 8)"
  proof -
    have A: "N \<le> 289 / 256 * W" by (rule N_leW)
    have B: "1 + U \<le> 17 / 16" using U16 by linarith
    have C: "0 \<le> 289 / 256 * W" using W0 by simp
    have D: "0 \<le> 1 + U" using U(1) by linarith
    have "N * (1 + U) \<le> (289 / 256 * W) * (17 / 16)" by (rule mult_mono [OF A B C D])
    then have E: "1 + N * (1 + U) \<le> 2 * W" using W100 by simp
    have F: "h * (1 + N * (1 + U)) \<le> h * (2 * W)" by (rule mult_left_mono [OF E h(1)])
    have "0 \<le> N * (1 + U)" using N(2) D by simp
    then have G: "0 \<le> h * (1 + N * (1 + U))" using h(1) by simp
    have "of_nat n * (h * (1 + N * (1 + U))) \<le> 2 ^ 20 * (h * (2 * W))"
      by (rule mult_mono [OF n F _ G]) simp
    also have "\<dots> = (2 ^ 24 * h) * W * (1 / 8)" by simp
    also have "\<dots> \<le> U * W * (1 / 8)"
    proof -
      have X1: "(2 ^ 24 * h) * W \<le> U * W" by (rule mult_right_mono [OF h(2) W0])
      show ?thesis by (rule mult_right_mono [OF X1]) simp
    qed
    finally show ?thesis by (simp add: mult.commute)
  qed
  have t3: "\<bar>N - X\<bar> * r \<le> W * U * (289 / 256)"
  proof -
    have A: "\<bar>N - X\<bar> \<le> U * (17 / 16 * W)" using NX UX by linarith
    have C: "0 \<le> U * (17 / 16 * W)" using U(1) W0 by simp
    have "\<bar>N - X\<bar> * r \<le> (U * (17 / 16 * W)) * (17 / 16)"
      by (rule mult_mono [OF A r_le C r0])
    then show ?thesis by (simp add: algebra_simps)
  qed
  have t4: "\<bar>dh\<bar> * \<bar>r - 1\<bar> \<le> W * U * (289 / 128)"
  proof -
    have C: "0 \<le> 17 / 16 * M" using M0 by simp
    have "\<bar>dh\<bar> * \<bar>r - 1\<bar> \<le> (17 / 16 * M) * (17 / 16 * a)"
      by (rule mult_mono [OF dh_le r1 C]) simp
    also have "\<dots> = (of_nat n * M) * U * (289 / 128)" unfolding a_def by simp
    also have "\<dots> \<le> W * U * (289 / 128)"
    proof -
      have X1: "(of_nat n * M) * U \<le> W * U" using WnM U(1) by (simp add: mult_right_mono)
      show ?thesis by (rule mult_right_mono [OF X1]) simp
    qed
    finally show ?thesis .
  qed
  have t5: "\<bar>dh - D\<bar> \<le> W * U * 1"
  proof -
    have "U * M \<le> U * W" using WM U(1) by (simp add: mult_left_mono)
    with dhD show ?thesis by (simp add: mult.commute)
  qed
  have ident: "S - (T + D) = (S - N * r) + (N - X) * r + dh * (r - 1) + (dh - D)"
  proof -
    have "X * r = T + dh * r" unfolding X_def using rT by (simp add: algebra_simps)
    then show ?thesis by (simp add: algebra_simps)
  qed
  have "\<bar>S - (T + D)\<bar> \<le> \<bar>S - N * r\<bar> + \<bar>(N - X) * r\<bar> + \<bar>dh * (r - 1)\<bar> + \<bar>dh - D\<bar>"
    unfolding ident by linarith
  also have "\<bar>(N - X) * r\<bar> = \<bar>N - X\<bar> * r" using r0 by (simp add: abs_mult)
  also have "\<bar>dh * (r - 1)\<bar> = \<bar>dh\<bar> * \<bar>r - 1\<bar>" by (simp add: abs_mult)
  finally have "\<bar>S - (T + D)\<bar> \<le>
      \<bar>S - N * r\<bar> + \<bar>N - X\<bar> * r + \<bar>dh\<bar> * \<bar>r - 1\<bar> + \<bar>dh - D\<bar>" .
  moreover have "\<bar>S - N * r\<bar> \<le> W * U * (163 / 64) + W * U * (1 / 8)"
    using S t1 t2 unfolding r_def by linarith
  ultimately have "\<bar>S - (T + D)\<bar> \<le>
      W * U * (163 / 64) + W * U * (1 / 8) + W * U * (289 / 256) + W * U * (289 / 128) + W * U * 1"
    using t3 t4 t5 by linarith
  also have "\<dots> = W * U * (1807 / 256)" by (simp add: algebra_simps)
  also have "\<dots> \<le> W * U * 8"
  proof -
    have "0 \<le> W * U" using W0 U(1) by simp
    then show ?thesis by (rule mult_left_mono [rotated]) simp
  qed
  finally show ?thesis unfolding W_def by (simp add: algebra_simps)
qed

lemma equal_split_error:
  fixes D dh N M U h e :: rat and n :: nat
  assumes U: "0 < U" "U \<le> 1 / 2 ^ 53"
    and h: "0 \<le> h" "2 ^ 24 * h \<le> U"
    and M: "100 \<le> M"
    and n: "0 < n" "of_nat n \<le> (2::rat) ^ 20"
    and D: "\<bar>D\<bar> \<le> M"
    and dh: "\<bar>dh - D\<bar> \<le> U * \<bar>D\<bar>"
    and N: "\<bar>N - dh\<bar> \<le> U * \<bar>dh\<bar>" "0 \<le> N"
    and e: "\<bar>e - N / of_nat n\<bar> \<le> U * (N / of_nat n) + h"
  shows "\<bar>of_nat n * e - D\<bar> \<le> (of_nat n + 1) * M * (8 * U)"
proof -
  have n0: "(0::rat) < of_nat n" using n(1) by simp
  have "(1::rat) / 2 ^ 53 \<le> 1 / 16" by simp
  with U(2) have U16: "U \<le> 1 / 16" by linarith
  have M0: "0 \<le> M" using M by linarith
  have UD: "U * \<bar>D\<bar> \<le> U * M" using D U(1) by (simp add: mult_left_mono)
  have "U * M \<le> 1 / 16 * M" by (rule mult_right_mono [OF U16 M0])
  with UD dh D have dh_le: "\<bar>dh\<bar> \<le> 17 / 16 * M" by linarith
  have Udh: "U * \<bar>dh\<bar> \<le> U * (17 / 16 * M)" using dh_le U(1) by (simp add: mult_left_mono)
  have "U * (17 / 16 * M) \<le> 1 / 16 * (17 / 16 * M)"
    by (rule mult_right_mono [OF U16]) (use M0 in simp)
  with Udh N(1) dh_le have N_le: "N \<le> 289 / 256 * M" by linarith
  have UN: "U * N \<le> U * (289 / 256 * M)" using N_le U(1) by (simp add: mult_left_mono)
  have "of_nat n * \<bar>e - N / of_nat n\<bar> \<le> of_nat n * (U * (N / of_nat n) + h)"
    by (rule mult_left_mono [OF e]) simp
  also have "\<dots> = U * N + of_nat n * h" using n0 by (simp add: algebra_simps)
  finally have "\<bar>of_nat n * (e - N / of_nat n)\<bar> \<le> U * N + of_nat n * h"
    by (simp add: abs_mult)
  moreover have "of_nat n * (e - N / of_nat n) = of_nat n * e - N"
    using n0 by (simp add: algebra_simps)
  ultimately have t1: "\<bar>of_nat n * e - N\<bar> \<le> U * N + of_nat n * h" by simp
  have "of_nat n * h \<le> 2 ^ 20 * h" by (rule mult_right_mono [OF n(2) h(1)])
  also have "\<dots> \<le> 2 ^ 24 * h" using h(1) by (simp add: mult_right_mono)
  also have "\<dots> \<le> U" by (rule h(2))
  also have "\<dots> \<le> U * M" using U(1) M by simp
  finally have nh: "of_nat n * h \<le> U * M" .
  have "\<bar>of_nat n * e - D\<bar> \<le> \<bar>of_nat n * e - N\<bar> + \<bar>N - dh\<bar> + \<bar>dh - D\<bar>" by linarith
  also have "\<dots> \<le> U * (289 / 256 * M) + U * M + U * (17 / 16 * M) + U * M"
    using t1 UN nh N(1) Udh dh UD by linarith
  also have "\<dots> = (U * M) * (1073 / 256)" by (simp add: algebra_simps)
  also have "\<dots> \<le> (U * M) * 8"
  proof -
    have "0 \<le> U * M" using U(1) M0 by simp
    then show ?thesis by (rule mult_left_mono [rotated]) simp
  qed
  also have "\<dots> \<le> (of_nat n + 1) * M * (8 * U)"
  proof -
    have "0 \<le> M * (8 * U)" using U(1) M0 by simp
    then have "1 * (M * (8 * U)) \<le> (of_nat n + 1) * (M * (8 * U))"
      by (rule mult_right_mono [rotated]) simp
    then show ?thesis by (simp add: algebra_simps)
  qed
  finally show ?thesis .
qed

lemma scaled_entry_error:
  fixes b That N U h q e :: rat
  assumes b: "0 \<le> b" and That: "0 < That" and N: "0 \<le> N" and U: "0 < U" and h: "0 \<le> h"
    and q: "\<bar>q - b / That\<bar> \<le> U * \<bar>b / That\<bar> + h" "0 \<le> q"
    and e: "\<bar>e - q * N\<bar> \<le> U * \<bar>q * N\<bar> + h"
  shows "\<bar>e - b * (N / That)\<bar> \<le> b * ((N / That) * U * (2 + U)) + h * (1 + N * (1 + U))"
proof -
  define c where "c = b / That"
  have c0: "0 \<le> c" unfolding c_def using b That by simp
  have abs_c: "\<bar>b / That\<bar> = b / That" using b That by simp
  have qc: "\<bar>q - c\<bar> \<le> U * c + h" using q(1) unfolding abs_c c_def .
  then have q_le: "q \<le> c * (1 + U) + h" by (simp add: algebra_simps)
  have qN: "q * N \<le> (c * (1 + U) + h) * N" by (rule mult_right_mono [OF q_le N])
  have "0 \<le> q * N" using q(2) N by simp
  then have "\<bar>e - q * N\<bar> \<le> U * (q * N) + h" using e by simp
  also have "U * (q * N) \<le> U * ((c * (1 + U) + h) * N)"
    by (rule mult_left_mono [OF qN]) (use U in simp)
  finally have t1: "\<bar>e - q * N\<bar> \<le> U * ((c * (1 + U) + h) * N) + h" by simp
  have "\<bar>q - c\<bar> * N \<le> (U * c + h) * N" by (rule mult_right_mono [OF qc N])
  then have t2: "\<bar>q * N - c * N\<bar> \<le> (U * c + h) * N"
    using N by (simp add: abs_mult flip: left_diff_distrib)
  have cN: "b * (N / That) = c * N" unfolding c_def by simp
  have "\<bar>e - c * N\<bar> \<le> \<bar>e - q * N\<bar> + \<bar>q * N - c * N\<bar>" by linarith
  also have "\<dots> \<le> U * ((c * (1 + U) + h) * N) + h + (U * c + h) * N" using t1 t2 by linarith
  also have "\<dots> = c * N * U * (2 + U) + h * (1 + N * (1 + U))" by (simp add: algebra_simps)
  also have "c * N * U * (2 + U) = b * ((N / That) * U * (2 + U))"
    unfolding c_def by simp
  finally show ?thesis unfolding cN .
qed

lemma abs_sum_list_diff:
  fixes f g c :: "'a \<Rightarrow> rat"
  assumes "\<forall>b \<in> set bs. \<bar>f b - g b\<bar> \<le> c b"
  shows "\<bar>sum_list (map f bs) - sum_list (map g bs)\<bar> \<le> sum_list (map c bs)"
  using assms
proof (induction bs)
  case Nil
  then show ?case by simp
next
  case (Cons b bs)
  then have "\<bar>f b - g b\<bar> \<le> c b"
    and "\<bar>sum_list (map f bs) - sum_list (map g bs)\<bar> \<le> sum_list (map c bs)" by simp_all
  then show ?case by simp
qed

lemma sum_list_affine:
  fixes k1 k2 :: rat
  shows "sum_list (map (\<lambda>b. b * k1 + k2) bs) = sum_list bs * k1 + of_nat (length bs) * k2"
  by (induction bs) (simp_all add: algebra_simps)

lemma sum_list_const:
  fixes e :: rat
  shows "sum_list (map (\<lambda>b. e) bs) = of_nat (length bs) * e"
  by (induction bs) (simp_all add: algebra_simps)

lemma sum_list_bounded:
  fixes M :: rat
  assumes "\<forall>b \<in> set bs. 0 \<le> b \<and> b \<le> M"
  shows "0 \<le> sum_list bs \<and> sum_list bs \<le> of_nat (length bs) * M"
  using assms by (induction bs) (auto simp: algebra_simps intro: add_mono)

lemma member_le_sum_list:
  fixes b :: rat
  assumes "\<forall>b \<in> set bs. 0 \<le> b" and "b \<in> set bs"
  shows "b \<le> sum_list bs"
  using assms
proof (induction bs)
  case Nil
  then show ?case by simp
next
  case (Cons a bs)
  have "0 \<le> sum_list bs" using Cons.prems(1) by (intro sum_list_nonneg) simp
  moreover have "0 \<le> a" using Cons.prems(1) by simp
  ultimately show ?case using Cons by auto
qed

lemma sum_list_zero:
  fixes bs :: "rat list"
  assumes "\<forall>b \<in> set bs. 0 \<le> b" and "sum_list bs \<le> 0"
  shows "\<forall>b \<in> set bs. b = 0"
proof
  fix b assume "b \<in> set bs"
  with member_le_sum_list [OF assms(1)] have "b \<le> sum_list bs" by simp
  moreover have "0 \<le> b" using assms(1) \<open>b \<in> set bs\<close> by simp
  ultimately show "b = 0" using assms(2) by linarith
qed

lemma half_step_tiny: "2 ^ 24 * half_step \<le> unit_roundoff"
proof -
  have a: "(2::rat) powi (24 + (- 1075)) = 2 powi 24 * 2 powi (- 1075)" by (rule pow2_add)
  have b: "(2::rat) powi (24 + (- 1075)) \<le> 2 powi (- 53)"
    by (intro power_int_increasing) simp_all
  have c: "(2::rat) powi (- 53) = 1 / 2 ^ 53" by simp
  have d: "(2::rat) powi 24 = 2 ^ 24" by simp
  show ?thesis using a b unfolding c d half_step_def unit_roundoff_def by simp
qed

lemma js_map_total:
  assumes "\<forall>b \<in> set bs. g b = Inr (f b)"
  shows "js_map g bs = Inr (map f bs)"
  using assms by (induction bs) simp_all

lemma total_below_bounds:
  assumes bs: "\<forall>b \<in> set bs. on_grid b \<and> 0 \<le> b \<and> b \<le> M"
    and M: "M \<le> 2 ^ 100" and n: "of_nat (length bs) \<le> (2::rat) ^ 20"
  shows "\<exists>t. js_reduce_sum 0 bs = Inr t \<and> on_grid t \<and> 0 \<le> t \<and>
           \<bar>t - sum_list bs\<bar> \<le> 2 * of_nat (length bs) * unit_roundoff * sum_list bs"
proof -
  define T where "T = sum_list bs"
  define k :: rat where "k = of_nat (length bs)"
  define U where "U = unit_roundoff"
  have U0: "0 < U" and U1: "U \<le> 1 / 2 ^ 53"
    unfolding U_def by (rule unit_roundoff_pos, rule unit_roundoff_small)
  have k0: "0 \<le> k" unfolding k_def by simp
  have T0: "0 \<le> T" and TM: "T \<le> k * M"
    unfolding T_def k_def using sum_list_bounded [of bs M] bs by simp_all
  have "k * U \<le> 2 ^ 20 * (1 / 2 ^ 53)"
    by (rule mult_mono) (use n U1 U0 in \<open>simp_all add: k_def\<close>)
  also have "\<dots> \<le> (1::rat) / 2" by simp
  finally have kU: "2 * k * U \<le> 1" by simp
  have up: "(1 + U) ^ length bs \<le> 1 + 2 * k * U"
    unfolding k_def by (rule pow_upper) (use U0 kU in \<open>simp_all add: k_def\<close>)
  have lo: "1 - k * U \<le> (1 - U) ^ length bs"
    unfolding k_def by (rule pow_lower) (use U0 U1 in simp_all)
  have lo0: "0 \<le> (1 - U) ^ length bs" using lo kU k0 U0 by (simp add: zero_le_power U1 [THEN order_trans])
  have "k * M \<le> 2 ^ 20 * 2 ^ 100"
  proof (cases "0 \<le> M")
    case True
    show ?thesis by (rule mult_mono) (use n M True in \<open>simp_all add: k_def\<close>)
  next
    case False
    then have "k * M \<le> 0" using k0 by (simp add: mult_nonneg_nonpos)
    then show ?thesis by simp
  qed
  with TM have T_le: "T \<le> 2 ^ 120" by simp
  have "T * (1 + U) ^ length bs \<le> T * 2"
    by (rule mult_left_mono) (use up kU T0 in simp_all)
  also have "\<dots> \<le> 2 ^ 200" using T_le by simp
  finally have fin: "(0 + sum_list bs) * (1 + unit_roundoff) ^ length bs \<le> 2 ^ 200"
    unfolding T_def U_def by simp
  have "\<forall>b \<in> set bs. on_grid b \<and> 0 \<le> b" using bs by simp
  from js_reduce_sum_bounds [OF this on_grid_0 order_refl fin]
  obtain t where t: "js_reduce_sum 0 bs = Inr t" "on_grid t"
    and tl: "T * (1 - U) ^ length bs \<le> t" and tu: "t \<le> T * (1 + U) ^ length bs"
    unfolding T_def U_def by auto
  have "T * (1 - k * U) \<le> T * (1 - U) ^ length bs" by (rule mult_left_mono [OF lo T0])
  with tl have l2: "T - k * U * T \<le> t" by (simp add: algebra_simps)
  have "T * (1 + U) ^ length bs \<le> T * (1 + 2 * k * U)" by (rule mult_left_mono [OF up T0])
  with tu have u2: "t \<le> T + 2 * k * U * T" by (simp add: algebra_simps)
  have "0 \<le> k * U * T" using k0 U0 T0 by simp
  with l2 u2 have "\<bar>t - T\<bar> \<le> 2 * k * U * T" by linarith
  moreover have "0 \<le> T * (1 - U) ^ length bs" using T0 lo0 by simp
  with tl have "0 \<le> t" by linarith
  ultimately show ?thesis using t unfolding T_def k_def U_def by blast
qed

lemma clamp_on_grid: "on_grid v \<Longrightarrow> on_grid (max 0 (min 100 v))"
  by (simp add: max_def min_def on_grid_0 on_grid_100)

lemma pow_100_200: "(2::rat) ^ 100 \<le> 2 ^ 200" and pow_125_200: "(2::rat) ^ 125 \<le> 2 ^ 200"
  by simp_all

lemma weekly_change_main:
  assumes idx: "index + 1 < length ps" and len: "length ps \<le> 2 ^ 20"
    and ps: "\<forall>p \<in> set ps. is_double p \<and> 0 \<le> p \<and> p \<le> M"
    and v: "is_double v" and M: "100 \<le> M" "M \<le> 2 ^ 100"
    and cond: "redistribution_condition index v ps"
  shows "\<exists>below. handleWeeklyPercentageChange index v ps =
             Inr (take index ps @ max 0 (min 100 v) # below) \<and>
           length below = length ps - index - 1 \<and>
           \<bar>sum_list below - (sum_list (drop (Suc index) ps) + (ps ! index - max 0 (min 100 v)))\<bar>
             \<le> of_nat (length ps - index) * M * (8 * unit_roundoff)"
proof -
  define nv where "nv = max 0 (min 100 v)"
  define old where "old = ps ! index"
  define bs where "bs = drop (Suc index) ps"
  define n where "n = length bs"
  define T where "T = sum_list bs"
  define D where "D = old - nv"
  define U where "U = unit_roundoff"
  define dh where "dh = round_double D"
  have U0: "0 < U" and U1: "U \<le> 1 / 2 ^ 53"
    unfolding U_def by (rule unit_roundoff_pos, rule unit_roundoff_small)
  have "(1::rat) / 2 ^ 53 \<le> 1 / 16" by simp
  with U1 have U16: "U \<le> 1 / 16" by linarith
  have h0: "0 \<le> half_step" using half_step_pos by simp
  have M0: "0 \<le> M" using M(1) by linarith
  have i: "index < length ps" using idx by simp
  have n_eq: "n = length ps - index - 1" unfolding n_def bs_def by simp
  have n_pos: "0 < n" using idx unfolding n_eq by simp
  have n1: "Suc n = length ps - index" using idx unfolding n_eq by simp
  have "n \<le> 2 ^ 20" using len unfolding n_eq by simp
  then have "(of_nat n :: rat) \<le> of_nat (2 ^ 20)" by (simp only: of_nat_le_iff)
  then have nle: "(of_nat n :: rat) \<le> 2 ^ 20" by simp
  have bs_sub: "set bs \<subseteq> set ps" unfolding bs_def by (rule set_drop_subset)
  have bsP: "\<forall>b \<in> set bs. on_grid b \<and> 0 \<le> b \<and> b \<le> M"
    using ps bs_sub is_double_on_grid by blast
  have "old \<in> set ps" unfolding old_def using i by simp
  then have oldP: "on_grid old" "0 \<le> old" "old \<le> M" using ps is_double_on_grid by blast+
  have nvP: "on_grid nv" "0 \<le> nv" "nv \<le> 100"
    unfolding nv_def using clamp_on_grid [OF is_double_on_grid [OF v]] by simp_all
  have D_le: "\<bar>D\<bar> \<le> M" unfolding D_def using oldP nvP M(1) by linarith
  have D_grid: "on_grid D" unfolding D_def by (rule on_grid_diff [OF oldP(1) nvP(1)])
  have "\<bar>D\<bar> \<le> 2 ^ 200" using D_le M(2) pow_100_200 by linarith
  then have sub: "js_sub old nv = Inr dh"
    unfolding js_sub_def dh_def D_def by (rule to_double_finite)
  have dhD: "\<bar>dh - D\<bar> \<le> U * \<bar>D\<bar>" unfolding dh_def U_def by (rule round_double_rel [OF D_grid])
  have dh_grid: "on_grid dh" unfolding dh_def by (rule round_double_on_grid)
  have "U * \<bar>D\<bar> \<le> 1 * \<bar>D\<bar>" by (rule mult_right_mono) (use U16 in simp_all)
  with dhD D_le have dh_le: "\<bar>dh\<bar> \<le> 2 * M" by linarith
  have T_bd: "0 \<le> T" "T \<le> of_nat n * M"
    unfolding T_def n_def using sum_list_bounded [of bs M] bsP by simp_all
  from total_below_bounds [OF bsP M(2)] nle
  obtain That where tot: "js_reduce_sum 0 bs = Inr That" and That_grid: "on_grid That"
    and That0: "0 \<le> That" and That_err: "\<bar>That - T\<bar> \<le> 2 * of_nat n * U * T"
    unfolding n_def T_def U_def by blast
  have nU: "2 * of_nat n * U \<le> 1 / 17"
  proof -
    have "of_nat n * U \<le> 2 ^ 20 * (1 / 2 ^ 53)" by (rule mult_mono [OF nle U1]) (use U0 in simp_all)
    also have "\<dots> \<le> (1::rat) / 34" by simp
    finally show ?thesis by simp
  qed
  have nUT: "2 * of_nat n * U * T \<le> 1 / 17 * T" by (rule mult_right_mono [OF nU T_bd(1)])
  have nM: "of_nat n * M \<le> 2 ^ 20 * 2 ^ 100" by (rule mult_mono [OF nle M(2)]) (use M0 in simp_all)
  have That_le: "That \<le> 2 ^ 121" using That_err nUT T_bd nM by simp
  have dh_le2: "\<bar>dh\<bar> \<le> 2 ^ 101" using dh_le M(2) by simp
  define N where "N = round_double (That + dh)"
  have X_le: "\<bar>That + dh\<bar> \<le> 2 ^ 122" using That_le That0 dh_le2 by simp
  then have "\<bar>That + dh\<bar> \<le> 2 ^ 200" by simp
  from js_add_grid [OF That_grid dh_grid this]
  have add: "js_add That dh = Inr N" and N_err: "\<bar>N - (That + dh)\<bar> \<le> U * \<bar>That + dh\<bar>"
    and N_grid: "on_grid N" unfolding N_def U_def by simp_all
  have drop_eq: "drop (Suc index) (ps[index := nv]) = bs" unfolding bs_def by simp
  have N0: "0 \<le> N"
    using cond unfolding redistribution_condition_def
    by (simp add: Let_def sub tot add flip: nv_def old_def bs_def)
  have "U * \<bar>That + dh\<bar> \<le> 1 * \<bar>That + dh\<bar>" by (rule mult_right_mono) (use U16 in simp_all)
  with N_err X_le have N_le: "N \<le> 2 ^ 123" by simp
  define f where "f b = (if That > 0 then round_double (round_double (b / That) * N)
                         else round_double (N / of_nat n))" for b
  define g where "g p = (if That > 0 then and_then (js_div p That) (\<lambda>q. js_mul q N)
                         else js_div N (of_nat (length bs)))" for p
  have b_div: "b / That \<le> 17 / 16" if "b \<in> set bs" "0 < That" for b
  proof -
    have "b \<le> T" unfolding T_def using member_le_sum_list [of bs b] bsP that(1) by simp
    moreover have "T \<le> 17 / 16 * That" using That_err nUT by linarith
    ultimately have "b \<le> 17 / 16 * That" by linarith
    then show ?thesis using that(2) by (simp add: field_simps)
  qed
  have q_bd: "0 \<le> round_double (b / That) \<and> round_double (b / That) \<le> 4"
    if "b \<in> set bs" "0 < That" for b
  proof -
    have b0: "0 \<le> b / That" using bsP that by simp
    have "U * \<bar>b / That\<bar> \<le> 1 * \<bar>b / That\<bar>" by (rule mult_right_mono) (use U16 in simp_all)
    with round_double_err [of "b / That"] b_div [OF that] b0 half_step_le_1
    have "round_double (b / That) \<le> 4" unfolding U_def by linarith
    then show ?thesis using round_double_nonneg [OF b0] by simp
  qed
  have gf: "g b = Inr (f b)" if "b \<in> set bs" for b
  proof (cases "0 < That")
    case True
    have "0 \<le> b / That" using bsP that True by simp
    moreover have "(17::rat) / 16 \<le> 2 ^ 200" by simp
    ultimately have "\<bar>b / That\<bar> \<le> 2 ^ 200" using b_div [OF that True] by linarith
    then have d: "js_div b That = Inr (round_double (b / That))"
      using True unfolding js_div_def by (simp add: to_double_finite)
    have "round_double (b / That) * N \<le> 4 * 2 ^ 123"
      by (rule mult_mono) (use q_bd [OF that True] N_le N0 in simp_all)
    moreover have "0 \<le> round_double (b / That) * N" using q_bd [OF that True] N0 by simp
    ultimately have "\<bar>round_double (b / That) * N\<bar> \<le> 2 ^ 200" by simp
    then have m: "js_mul (round_double (b / That)) N = Inr (round_double (round_double (b / That) * N))"
      unfolding js_mul_def by (rule to_double_finite)
    show ?thesis unfolding g_def f_def using True d m by simp
  next
    case False
    have "N / of_nat n \<le> N" using N0 n_pos by (simp add: field_simps mult_le_cancel_left1)
    moreover have "0 \<le> N / of_nat n" using N0 by simp
    ultimately have "\<bar>N / of_nat n\<bar> \<le> 2 ^ 200" using N_le by simp
    then have "js_div N (of_nat n) = Inr (round_double (N / of_nat n))"
      using n_pos unfolding js_div_def by (simp add: to_double_finite)
    then show ?thesis unfolding g_def f_def using False by (simp add: n_def)
  qed
  have map_eq: "js_map g bs = Inr (map f bs)" by (rule js_map_total) (use gf in blast)
  have take_eq: "take (index + 1) (ps[index := nv]) = take index ps @ [nv]"
    using i by (simp add: take_Suc_conv_app_nth)
  have drop_eq': "drop (index + 1) (ps[index := nv]) = bs" unfolding bs_def by simp
  have len_bs: "0 < length bs" using n_pos unfolding n_def .
  have res: "handleWeeklyPercentageChange index v ps = Inr (take index ps @ nv # map f bs)"
    unfolding handleWeeklyPercentageChange_def Let_def
    unfolding nv_def [symmetric] old_def [symmetric]
    unfolding drop_eq' take_eq
    using i len_bs N0 by (simp add: sub tot add map_eq [unfolded g_def])
  define S where "S = sum_list (map f bs)"
  have bound: "\<bar>S - (T + D)\<bar> \<le> (of_nat n + 1) * M * (8 * U)"
  proof (cases "0 < That")
    case True
    define K1 where "K1 = (N / That) * U * (2 + U)"
    define K2 where "K2 = half_step * (1 + N * (1 + U))"
    have "\<forall>b \<in> set bs. \<bar>f b - b * (N / That)\<bar> \<le> b * K1 + K2"
    proof
      fix b assume b: "b \<in> set bs"
      have b0: "0 \<le> b" using bsP b by simp
      define q where "q = round_double (b / That)"
      have qe: "\<bar>q - b / That\<bar> \<le> U * \<bar>b / That\<bar> + half_step"
        unfolding q_def U_def by (rule round_double_err)
      have qn: "0 \<le> q" unfolding q_def using q_bd [OF b True] by simp
      have ee: "\<bar>round_double (q * N) - q * N\<bar> \<le> U * \<bar>q * N\<bar> + half_step"
        unfolding U_def by (rule round_double_err)
      have fb: "f b = round_double (q * N)" unfolding f_def q_def using True by simp
      have "\<bar>f b - b * (N / That)\<bar> \<le> b * ((N / That) * U * (2 + U)) + half_step * (1 + N * (1 + U))"
        unfolding fb by (rule scaled_entry_error [OF b0 True N0 U0 h0 qe qn ee])
      then show "\<bar>f b - b * (N / That)\<bar> \<le> b * K1 + K2" unfolding K1_def K2_def .
    qed
    from abs_sum_list_diff [OF this]
    have "\<bar>S - sum_list (map (\<lambda>b. b * (N / That)) bs)\<bar> \<le> T * K1 + of_nat n * K2"
      unfolding S_def T_def n_def sum_list_affine .
    moreover have "sum_list (map (\<lambda>b. b * (N / That)) bs) = N * (T / That)"
      using sum_list_affine [of "N / That" 0 bs] unfolding T_def by simp
    moreover have "T * K1 = N * (T / That) * U * (2 + U)" unfolding K1_def by simp
    ultimately have S_err: "\<bar>S - N * (T / That)\<bar> \<le>
        N * (T / That) * U * (2 + U) + of_nat n * (half_step * (1 + N * (1 + U)))"
      unfolding K2_def by simp
    show ?thesis
      by (rule redistribution_error [OF U0 U1 h0 _ M(1) nle T_bd True That_err D_le dhD N_err N0 S_err])
         (use half_step_tiny in \<open>simp add: U_def\<close>)
  next
    case False
    then have That_eq: "That = 0" using That0 by simp
    have N_dh: "\<bar>N - dh\<bar> \<le> U * \<bar>dh\<bar>" using N_err unfolding That_eq by simp
    have "T \<le> 0" using That_err nUT unfolding That_eq by simp
    then have T_eq: "T = 0" using T_bd(1) by simp
    have S_eq: "S = of_nat n * round_double (N / of_nat n)"
      unfolding S_def f_def using False by (simp add: sum_list_const n_def)
    have e: "\<bar>round_double (N / of_nat n) - N / of_nat n\<bar> \<le> U * (N / of_nat n) + half_step"
      using round_double_err [of "N / of_nat n"] N0 unfolding U_def by simp
    have "\<bar>of_nat n * round_double (N / of_nat n) - D\<bar> \<le> (of_nat n + 1) * M * (8 * U)"
      by (rule equal_split_error [OF U0 U1 h0 _ M(1) n_pos nle D_le dhD N_dh N0 e])
         (use half_step_tiny in \<open>simp add: U_def\<close>)
    then show ?thesis unfolding S_eq T_eq by simp
  qed
  have "(of_nat n + 1 :: rat) = of_nat (length ps - index)" using n1 [symmetric] by simp
  with bound have "\<bar>S - (T + D)\<bar> \<le> of_nat (length ps - index) * M * (8 * U)" by simp
  then show ?thesis
    unfolding res using n_eq
    by (intro exI [of _ "map f bs"])
       (simp add: S_def T_def D_def bs_def old_def nv_def U_def n_def)
qed

lemma round_half_even_tie:
  assumes "\<bar>k - of_int m\<bar> = 1 / 2" and "even m"
  shows "round_half_even k = m"
proof -
  consider "k = of_int m + 1 / 2" | "k = of_int m - 1 / 2" using assms(1) by (auto simp: abs_if split: if_splits)
  then show ?thesis
  proof cases
    case 1
    have "\<lfloor>k\<rfloor> = m" unfolding 1 by (rule floor_unique) simp_all
    then show ?thesis unfolding round_half_even_def Let_def using 1 assms(2) by simp
  next
    case 2
    have f: "\<lfloor>k\<rfloor> = m - 1" unfolding 2 by (rule floor_unique) simp_all
    show ?thesis unfolding round_half_even_def Let_def f using 2 assms(2) by simp
  qed
qed

lemma to_double_eqI:
  assumes lo: "2 powi e \<le> \<bar>x\<bar>" and hi: "\<bar>x\<bar> < 2 powi (e + 1)"
    and e: "- 1022 \<le> e" and fin: "\<bar>x\<bar> \<le> 2 ^ 200"
    and m: "\<bar>x / 2 powi (e - 52) - of_int m\<bar> < 1 / 2 \<or>
            \<bar>x / 2 powi (e - 52) - of_int m\<bar> = 1 / 2 \<and> even m"
  shows "to_double x = Inr (of_int m * 2 powi (e - 52))"
proof -
  have "(0::rat) < 2 powi e" by simp
  with lo have "0 < \<bar>x\<bar>" by linarith
  then have x: "x \<noteq> 0" by simp
  have il: "ilog2 \<bar>x\<bar> = e" by (rule ilog2_unique [OF lo hi])
  have mx: "max e (- 1022) = e" using e by simp
  have "round_half_even (x / 2 powi (e - 52)) = m"
    using m round_half_even_unique round_half_even_tie by blast
  then have "round_double x = of_int m * 2 powi (e - 52)"
    unfolding round_double_unfold [OF x] il mx by simp
  then show ?thesis using to_double_finite [OF fin] by simp
qed

lemma round_double_of_int:
  assumes "\<bar>m\<bar> < 2 ^ 53"
  shows "round_double (of_int m) = of_int m"
proof (cases "m = 0")
  case True
  then show ?thesis by (simp add: round_double_def)
next
  case False
  define x :: rat where "x = of_int m"
  define e where "e = ilog2 \<bar>x\<bar>"
  have x0: "x \<noteq> 0" unfolding x_def using False by simp
  have "1 \<le> \<bar>m\<bar>" using False by simp
  then have "(1::rat) \<le> of_int \<bar>m\<bar>" by (simp only: of_int_1_le_iff)
  then have x1: "1 \<le> \<bar>x\<bar>" unfolding x_def by simp
  have "(of_int \<bar>m\<bar> :: rat) < of_int (2 ^ 53)" using assms by (simp only: of_int_less_iff)
  then have x53: "\<bar>x\<bar> < 2 ^ 53" unfolding x_def by simp
  have b: "2 powi e \<le> \<bar>x\<bar>" "\<bar>x\<bar> < 2 powi (e + 1)"
    unfolding e_def using ilog2_bounds [of "\<bar>x\<bar>"] x0 by simp_all
  have e0: "0 \<le> e"
  proof (rule ccontr)
    assume "\<not> 0 \<le> e"
    then have "(2::rat) powi (e + 1) \<le> 2 powi 0" by (intro power_int_increasing) simp_all
    with b(2) x1 show False by simp
  qed
  have e52: "e \<le> 52"
  proof (rule ccontr)
    assume "\<not> e \<le> 52"
    then have "(2::rat) powi 53 \<le> 2 powi e" by (intro power_int_increasing) simp_all
    with b(1) x53 show False by simp
  qed
  define j where "j = nat (52 - e)"
  have je: "52 - e = int j" unfolding j_def using e52 by simp
  have "(2::rat) powi (e - 52) * 2 powi (52 - e) = 2 powi 0"
    using pow2_add [of "e - 52" "52 - e"] by simp
  then have inv: "(2::rat) powi (e - 52) * 2 ^ j = 1" unfolding je by simp
  have ulp0: "(2::rat) powi (e - 52) \<noteq> 0" by simp
  have "x / 2 powi (e - 52) = x * 2 ^ j"
    using inv ulp0 by (simp add: field_simps)
  also have "\<dots> = of_int (m * 2 ^ j)" unfolding x_def by simp
  finally have k: "x / 2 powi (e - 52) = of_int (m * 2 ^ j)" .
  have mx: "max e (- 1022) = e" using e0 by simp
  have "round_double x = of_int (m * 2 ^ j) * 2 powi (e - 52)"
    unfolding round_double_unfold [OF x0] e_def [symmetric] mx k round_half_even_of_int ..
  also have "\<dots> = x * (2 powi (e - 52) * 2 ^ j)" unfolding x_def by simp
  also have "\<dots> = x" unfolding inv by simp
  finally show ?thesis unfolding x_def .
qed

lemma to_double_of_int:
  assumes "\<bar>m\<bar> < 2 ^ 53"
  shows "to_double (of_int m) = Inr (of_int m)"
proof -
  have "(of_int \<bar>m\<bar> :: rat) < of_int (2 ^ 53)" using assms by (simp only: of_int_less_iff)
  then have "\<bar>of_int m :: rat\<bar> \<le> 2 ^ 200" by simp
  from to_double_finite [OF this] round_double_of_int [OF assms] show ?thesis by simp
qed

lemma is_double_of_int:
  assumes "\<bar>m\<bar> < 2 ^ 53"
  shows "is_double (of_int m)"
proof -
  have "(of_int \<bar>m\<bar> :: rat) < of_int (2 ^ 53)" using assms by (simp only: of_int_less_iff)
  then have "\<bar>of_int m :: rat\<bar> < 2 ^ 202" by simp
  then have "\<bar>of_int m :: rat\<bar> < overflow_threshold" using overflow_threshold_big by linarith
  then show ?thesis unfolding is_double_def using round_double_of_int [OF assms] by simp
qed

lemma to_double_numeral [simp]:
  "(numeral k :: int) < 2 ^ 53 \<Longrightarrow> to_double (numeral k) = Inr (numeral k)"
  "(numeral k :: int) < 2 ^ 53 \<Longrightarrow> to_double (- numeral k) = Inr (- numeral k)"
  "to_double 0 = Inr 0"
  using to_double_of_int [of "numeral k"] to_double_of_int [of "- numeral k"] to_double_of_int [of 0]
  by simp_all

lemma is_double_numeral [simp]:
  "(numeral k :: int) < 2 ^ 53 \<Longrightarrow> is_double (numeral k)"
  using is_double_of_int [of "numeral k"] by simp

lemma ex_cond: "redistribution_condition 0 30 [25, 25, 25, 25]"
  by (simp add: redistribution_condition_def js_sub_def js_add_def)

lemma ex_div: "js_div 25 75 = Inr (6004799503160661 / 18014398509481984)"
  unfolding js_div_def using to_double_eqI [of "- 2" "25 / 75" 6004799503160661] by simp

lemma ex_mul: "js_mul (6004799503160661 / 18014398509481984) 70 = Inr (6567749456581973 / 281474976710656)"
  unfolding js_mul_def
  using to_double_eqI [of 4 "6004799503160661 / 18014398509481984 * 70" 6567749456581973] by simp

lemma ex_handler: "handleWeeklyPercentageChange 0 30 [25, 25, 25, 25] =
    Inr [30, 6567749456581973 / 281474976710656, 6567749456581973 / 281474976710656,
         6567749456581973 / 281474976710656]"
  by (simp add: handleWeeklyPercentageChange_def js_sub_def js_add_def ex_div ex_mul)

lemma ex_add1: "js_add 30 (6567749456581973 / 281474976710656) = Inr (3752999689475413 / 70368744177664)"
  unfolding js_add_def
  using to_double_eqI [of 5 "30 + 6567749456581973 / 281474976710656" 7505999378950826] by simp

lemma ex_add2: "js_add (3752999689475413 / 70368744177664) (6567749456581973 / 281474976710656) =
    Inr (2697468526810453 / 35184372088832)"
  unfolding js_add_def
  using to_double_eqI [of 6 "3752999689475413 / 70368744177664 + 6567749456581973 / 281474976710656"
      5394937053620906] by simp

lemma ex_add3: "js_add (2697468526810453 / 35184372088832) (6567749456581973 / 281474976710656) =
    Inr (7036874417766399 / 70368744177664)"
  unfolding js_add_def
  using to_double_eqI [of 6 "2697468526810453 / 35184372088832 + 6567749456581973 / 281474976710656"
      7036874417766399] by simp

lemma ex_sum_after: "js_reduce_sum 0 [30, 6567749456581973 / 281474976710656,
      6567749456581973 / 281474976710656, 6567749456581973 / 281474976710656] =
    Inr (7036874417766399 / 70368744177664)"
  using ex_add1 ex_add2 ex_add3 by (simp add: js_add_def)

lemma ex_sum_before: "js_reduce_sum 0 [25, 25, 25, 25] = Inr 100"
  by (simp add: js_add_def)
section \<open>Editing one weekly percentage keeps the total, up to rounding\<close>

text \<open>
  Claim C9, as the code has it. Let the percentages be doubles between 0 and a bound
  \<open>M \<ge> 100\<close>, let at least one entry follow \<open>index\<close>, and let the handler's guard
  \<open>totalBelow + diff >= 0\<close> hold as the handler evaluates it. Then
  \<open>handleWeeklyPercentageChange\<close> returns a list of the same length, unchanged before
  \<open>index\<close>, whose entry at \<open>index\<close> is the value clamped into \<open>[0, 100]\<close>, and whose sum
  differs from the sum before by at most \<open>(length - index) * M / 2^50\<close>: the difference,
  the total below, the quotients and the products are each rounded to a double, so the
  two sums need not be equal.
\<close>

theorem weekly_percentage_change_total_drift:
  assumes "index + 1 < length weeklyPercentages"
    and "length weeklyPercentages \<le> 2 ^ 20"
    and "\<forall>p \<in> set weeklyPercentages. is_double p \<and> 0 \<le> p \<and> p \<le> M"
    and "is_double v" and "100 \<le> M" and "M \<le> 2 ^ 100"
    and "redistribution_condition index v weeklyPercentages"
  shows "\<exists>new. handleWeeklyPercentageChange index v weeklyPercentages = Inr new \<and>
           length new = length weeklyPercentages \<and>
           take index new = take index weeklyPercentages \<and>
           new ! index = max 0 (min 100 v) \<and> 0 \<le> new ! index \<and> new ! index \<le> 100 \<and>
           \<bar>sum_list new - sum_list weeklyPercentages\<bar>
             \<le> of_nat (length weeklyPercentages - index) * M / 2 ^ 50"
proof -
  let ?ps = weeklyPercentages
  let ?nv = "max 0 (min 100 v)"
  from weekly_change_main [OF assms]
  obtain below where res: "handleWeeklyPercentageChange index v ?ps = Inr (take index ?ps @ ?nv # below)"
    and len: "length below = length ?ps - index - 1"
    and err: "\<bar>sum_list below - (sum_list (drop (Suc index) ?ps) + (?ps ! index - ?nv))\<bar>
                \<le> of_nat (length ?ps - index) * M * (8 * unit_roundoff)"
    by blast
  let ?new = "take index ?ps @ ?nv # below"
  have i: "index < length ?ps" using assms(1) by simp
  have l: "length ?new = length ?ps" using assms(1) len by simp
  have t: "take index ?new = take index ?ps" using i by simp
  have n: "?new ! index = ?nv" using i by (simp add: nth_append)
  have "?ps = take index ?ps @ ?ps ! index # drop (Suc index) ?ps" using i by (rule id_take_nth_drop)
  then have "sum_list ?ps = sum_list (take index ?ps) + ?ps ! index + sum_list (drop (Suc index) ?ps)"
    by (metis add.assoc sum_list.Cons sum_list.append)
  then have d: "sum_list ?new - sum_list ?ps =
      sum_list below - (sum_list (drop (Suc index) ?ps) + (?ps ! index - ?nv))" by simp
  have "8 * unit_roundoff = 1 / 2 ^ 50" by (simp add: unit_roundoff_def)
  with err have "\<bar>sum_list ?new - sum_list ?ps\<bar> \<le> of_nat (length ?ps - index) * M / 2 ^ 50"
    unfolding d by simp
  moreover have "0 \<le> ?nv" "?nv \<le> 100" by simp_all
  ultimately show ?thesis using res l t n by (intro exI [of _ ?new]) simp
qed

theorem weekly_percentage_change_total_drift_witness:
  "\<exists>new. handleWeeklyPercentageChange 0 30 [25, 25, 25, 25] = Inr new \<and>
     length new = 4 \<and> new ! 0 = 30 \<and> \<bar>sum_list new - 100\<bar> \<le> 400 / 2 ^ 50"
proof -
  from weekly_percentage_change_total_drift [of 0 "[25, 25, 25, 25]" 100 30]
  obtain new where "handleWeeklyPercentageChange 0 30 [25, 25, 25, 25] = Inr new"
    and "length new = length [25, 25, 25, 25 :: rat]"
    and "new ! 0 = max 0 (min 100 30)"
    and "\<bar>sum_list new - sum_list [25, 25, 25, 25]\<bar>
           \<le> of_nat (length [25, 25, 25, 25 :: rat] - 0) * 100 / 2 ^ 50"
    by (auto simp add: redistribution_condition_def js_sub_def js_add_def)
  then show ?thesis by (intro exI [of _ new]) simp
qed

text \<open>
  The claim as stated fails: on the default distribution \<open>[25, 25, 25, 25]\<close>, setting the
  first week to 30 redistributes (the guard holds) and gives three entries
  \<open>23.333333333333332\<close>; the sum after the update is not the sum before, neither exactly
  nor when it is added up in doubles as \<open>reduce\<close> does (\<open>99.99999999999999\<close> against
  \<open>100\<close>).
\<close>

theorem weekly_percentage_change_sum_counterexample:
  "handleWeeklyPercentageChange 0 30 [25, 25, 25, 25] =
     Inr [30, 6567749456581973 / 281474976710656, 6567749456581973 / 281474976710656,
          6567749456581973 / 281474976710656] \<and>
   redistribution_condition 0 30 [25, 25, 25, 25] \<and>
   sum_list [30, 6567749456581973 / 281474976710656, 6567749456581973 / 281474976710656,
             6567749456581973 / 281474976710656 :: rat] \<noteq> sum_list [25, 25, 25, 25] \<and>
   js_reduce_sum 0 [25, 25, 25, 25] = Inr 100 \<and>
   js_reduce_sum 0 [30, 6567749456581973 / 281474976710656, 6567749456581973 / 281474976710656,
                    6567749456581973 / 281474976710656] =
     Inr (7036874417766399 / 70368744177664)"
  using ex_add1 ex_add2 ex_add3
  by (simp add: handleWeeklyPercentageChange_def redistribution_condition_def
        js_sub_def js_add_def ex_div ex_mul)
end
